theory Spec2Isabelle
  imports Main "HOL-Library.Word"
begin

section \<open>Data model of \<open>src/caliper/Caliper.cpp\<close>\<close>

text \<open>
  The file defines \<open>Caliper::CaliperImpl\<close> and the public \<open>Caliper\<close> facade. The classes it
  uses (\<open>Node\<close>, \<open>Attribute\<close>, \<open>AttributeStore\<close>, \<open>Context\<close>, \<open>SigsafeRWLock\<close>) are declared in
  headers that are not part of the source tree at hand; each is modelled below from the data
  model of the specification, and marked so.

  Identifiers (\<open>cali_id_t\<close>, a 64-bit unsigned integer) are natural numbers: a node id is the
  size of a vector in memory and never comes near \<open>2 ^ 64\<close>. Payloads are byte lists, whose
  length is the \<open>size\<close> argument of the source.
\<close>

type_synonym cali_id_t = nat
type_synonym byte = "8 word"

definition CALI_INV_ID :: cali_id_t where
  "CALI_INV_ID = 18446744073709551615"

text \<open>The two error kinds the file returns.\<close>

datatype cali_err = CALI_SUCCESS | CALI_EINV

text \<open>
  What the C++ leaves undefined or what never returns in a single thread:
  an index past the end of \<open>m_nodes\<close>, a node pointer that names no node, a lock
  acquisition that can never be granted, and an unlock of a lock that is not held.
\<close>

datatype fault = OutOfBounds | BadPointer | Deadlock | UnlockNotHeld

definition and_then :: "fault + 'a \<Rightarrow> ('a \<Rightarrow> fault + 'b) \<Rightarrow> fault + 'b" where
  "and_then r f = (case r of Inl e \<Rightarrow> Inl e | Inr x \<Rightarrow> f x)"

subsection \<open>Attribute\<close>

text \<open>
  Modelled from the spec: class \<open>Attribute\<close> (header missing). A descriptor with a dense id,
  a unique name and the two properties the file reads, \<open>store_as_value()\<close> and \<open>is_global()\<close>.
\<close>

record Attribute =
  attr_id :: cali_id_t
  attr_name :: string
  store_as_value :: bool
  is_global :: bool

text \<open>
  Modelled from the spec: the sentinel \<open>Attribute::invalid\<close> (header missing), which carries
  the reserved invalid id.
\<close>

definition Attribute_invalid :: Attribute where
  "Attribute_invalid =
     \<lparr>attr_id = CALI_INV_ID, attr_name = [], store_as_value = False, is_global = False\<rparr>"

text \<open>
  Modelled from the spec: the comparison \<open>attr == Attribute::invalid\<close> (the operator is
  declared in the missing header); an attribute is the sentinel when it has the reserved id.
\<close>

definition is_invalid :: "Attribute \<Rightarrow> bool" where
  "is_invalid attr = (attr_id attr = attr_id Attribute_invalid)"

text \<open>
  Modelled from the spec: \<open>AttributeStore::create\<close> (header missing). Creation is idempotent
  by name; a new attribute gets the next dense id.
\<close>

definition AttributeStore_create ::
  "Attribute list \<Rightarrow> string \<Rightarrow> bool \<Rightarrow> bool \<Rightarrow> Attribute \<times> Attribute list" where
  "AttributeStore_create attrs name asvalue global =
     (case find (\<lambda>a. attr_name a = name) attrs of
        Some a \<Rightarrow> (a, attrs)
      | None \<Rightarrow>
          (let a = \<lparr>attr_id = length attrs, attr_name = name,
                    store_as_value = asvalue, is_global = global\<rparr>
           in (a, attrs @ [a])))"

subsection \<open>Node\<close>

text \<open>
  A \<open>Node*\<close> is either \<open>&m_root\<close> or an element of \<open>m_nodes\<close>; since \<open>create_node\<close> pushes every
  node at the index that is its id, the element pointers are the indices. A null pointer is
  \<open>None\<close>.
\<close>

datatype node_ptr = Root | Idx nat

text \<open>
  Modelled from the spec: class \<open>Node\<close> (header missing). It carries an id, the attribute id,
  the payload bytes, the parent link, and the child list (the first-child / next-sibling
  chain, kept as the list of children in insertion order: \<open>first_child()\<close> is its head and
  \<open>next_sibling()\<close> moves to the next element).
\<close>

record Node =
  node_id :: cali_id_t
  node_attribute :: cali_id_t
  node_data :: "byte list"
  node_parent :: "node_ptr option"
  node_children :: "nat list"

text \<open>
  Modelled from the spec: the constructor \<open>Node(id, attr, data, size)\<close> (header missing); a new
  node has no parent and no child.
\<close>

definition Node_new :: "cali_id_t \<Rightarrow> cali_id_t \<Rightarrow> byte list \<Rightarrow> Node" where
  "Node_new i a d =
     \<lparr>node_id = i, node_attribute = a, node_data = d, node_parent = None, node_children = []\<rparr>"

text \<open>
  Modelled from the spec: \<open>Node::equals\<close> (header missing); the attribute id and the payload
  are compared, the payload byte by byte and with its length.
\<close>

definition equals :: "Node \<Rightarrow> cali_id_t \<Rightarrow> byte list \<Rightarrow> bool" where
  "equals n a d = (node_attribute n = a \<and> node_data n = d)"

subsection \<open>SigsafeRWLock\<close>

text \<open>
  Modelled from the spec: class \<open>SigsafeRWLock\<close> (header missing): many readers or one writer.
\<close>

record SigsafeRWLock =
  lock_readers :: nat
  lock_writer :: bool

definition lock_free :: SigsafeRWLock where
  "lock_free = \<lparr>lock_readers = 0, lock_writer = False\<rparr>"

text \<open>
  Modelled from the spec: \<open>rlock\<close>, \<open>wlock\<close> and \<open>unlock\<close> of \<open>SigsafeRWLock\<close> (header missing).
  A writer excludes readers and writers. The model runs one thread, in which an acquisition
  that has to wait waits forever.
\<close>

definition rlock :: "SigsafeRWLock \<Rightarrow> fault + SigsafeRWLock" where
  "rlock l = (if lock_writer l then Inl Deadlock
              else Inr (l\<lparr>lock_readers := Suc (lock_readers l)\<rparr>))"

definition wlock :: "SigsafeRWLock \<Rightarrow> fault + SigsafeRWLock" where
  "wlock l = (if lock_writer l \<or> 0 < lock_readers l then Inl Deadlock
              else Inr (l\<lparr>lock_writer := True\<rparr>))"

definition unlock :: "SigsafeRWLock \<Rightarrow> fault + SigsafeRWLock" where
  "unlock l = (if lock_writer l then Inr (l\<lparr>lock_writer := False\<rparr>)
               else if 0 < lock_readers l then Inr (l\<lparr>lock_readers := lock_readers l - 1\<rparr>)
               else Inl UnlockNotHeld)"

subsection \<open>Context\<close>

text \<open>
  Modelled from the spec: the entries of class \<open>Context\<close> (header missing), a 64-bit slot
  with a discriminator. The source passes a bare \<open>uint64_t\<close> to \<open>Context::set\<close>; the
  discriminator of the model records which branch wrote the slot: the scalar copied out of
  the payload (\<open>Inline\<close>) or \<open>node->id()\<close> (\<open>Reference\<close>). \<open>slot_raw\<close> is the bare 64-bit value
  that \<open>Context::get\<close> hands back.
\<close>

datatype slot = Inline "64 word" | Reference cali_id_t

fun slot_raw :: "slot \<Rightarrow> nat" where
  "slot_raw (Inline w) = unat w"
| "slot_raw (Reference i) = i"

text \<open>
  Modelled from the spec: class \<open>Context\<close> (header missing). Per environment a map from
  attribute id to an entry, and a process-wide global overlay; a new store is empty.
\<close>

record Context =
  ctx_env :: "cali_id_t \<Rightarrow> cali_id_t \<Rightarrow> slot option"
  ctx_global :: "cali_id_t \<Rightarrow> slot option"

definition Context_new :: Context where
  "Context_new = \<lparr>ctx_env = (\<lambda>env key. None), ctx_global = (\<lambda>key. None)\<rparr>"

text \<open>
  Modelled from the spec: \<open>Context::get\<close>, \<open>Context::set\<close> and \<open>Context::unset\<close> (header
  missing). \<open>get\<close> resolves env-local first, then the overlay; \<open>set\<close> writes the overlay
  when its \<open>global\<close> argument is true and the env-local map otherwise; \<open>unset\<close> removes the
  env-local entry only. The spec names no failure of \<open>set\<close>, which returns \<open>CALI_SUCCESS\<close>.
  It gives \<open>unset\<close> no return value either, but has \<open>end\<close>, which returns what \<open>unset\<close>
  returns, fail with invalid-argument when there is no entry to remove (an unmatched
  \<open>end\<close>): \<open>unset\<close> returns \<open>CALI_EINV\<close> when the env-local map has no entry under the key,
  and \<open>CALI_SUCCESS\<close> when it removed one.
\<close>

definition Context_get :: "Context \<Rightarrow> cali_id_t \<Rightarrow> cali_id_t \<Rightarrow> slot option" where
  "Context_get c env key =
     (case ctx_env c env key of Some v \<Rightarrow> Some v | None \<Rightarrow> ctx_global c key)"

definition Context_set ::
  "Context \<Rightarrow> cali_id_t \<Rightarrow> cali_id_t \<Rightarrow> slot \<Rightarrow> bool \<Rightarrow> cali_err \<times> Context" where
  "Context_set c env key v global =
     (if global then (CALI_SUCCESS, c\<lparr>ctx_global := (ctx_global c)(key := Some v)\<rparr>)
      else (CALI_SUCCESS, c\<lparr>ctx_env := (ctx_env c)(env := (ctx_env c env)(key := Some v))\<rparr>))"

definition Context_unset :: "Context \<Rightarrow> cali_id_t \<Rightarrow> cali_id_t \<Rightarrow> cali_err \<times> Context" where
  "Context_unset c env key =
     (if ctx_env c env key = None then CALI_EINV else CALI_SUCCESS,
      c\<lparr>ctx_env := (ctx_env c)(env := (ctx_env c env)(key := None))\<rparr>)"

text \<open>
  Modelled from the spec: the default value of the fourth parameter of \<open>Context::set\<close>
  (declared in the missing header), which \<open>end\<close> relies on when it calls
  \<open>m_context.set(env, key, node->id())\<close>. The spec has \<open>end\<close> set the entry of (env, attr), so
  the call writes the env-local map.
\<close>

definition Context_set_global_default :: bool where
  "Context_set_global_default = False"

subsection \<open>CaliperImpl\<close>

text \<open>
  The fields of \<open>struct Caliper::CaliperImpl\<close> that the annotation and retrieval interface
  reads or writes. \<open>m_env_cb\<close> is a \<open>std::function\<close>, which may be empty (\<open>None\<close>).
  The memory pool never fails and the event hub has no observer registered (services are
  outside this file), so neither has a field.
\<close>

record CaliperImpl =
  m_env_cb :: "(unit \<Rightarrow> cali_id_t) option"
  m_nodelock :: SigsafeRWLock
  m_nodes :: "Node list"
  m_root :: Node
  m_attribute_lock :: SigsafeRWLock
  m_attributes :: "Attribute list"
  m_context :: Context

text \<open>The constructor: \<open>m_root { CALI_INV_ID, Attribute::invalid, 0, 0 }\<close>, all else empty.\<close>

definition CaliperImpl_new :: CaliperImpl where
  "CaliperImpl_new =
     \<lparr>m_env_cb = None, m_nodelock = lock_free, m_nodes = [],
      m_root = Node_new CALI_INV_ID (attr_id Attribute_invalid) [],
      m_attribute_lock = lock_free, m_attributes = [], m_context = Context_new\<rparr>"

text \<open>Dereferencing a node pointer, and \<open>m_nodes[i]\<close>, which is undefined past the end.\<close>

definition deref :: "CaliperImpl \<Rightarrow> node_ptr \<Rightarrow> fault + Node" where
  "deref s p =
     (case p of
        Root \<Rightarrow> Inr (m_root s)
      | Idx i \<Rightarrow> if i < length (m_nodes s) then Inr (m_nodes s ! i) else Inl BadPointer)"

definition nodes_at :: "CaliperImpl \<Rightarrow> nat \<Rightarrow> fault + node_ptr" where
  "nodes_at s i = (if i < length (m_nodes s) then Inr (Idx i) else Inl OutOfBounds)"

text \<open>Writing through a node pointer.\<close>

definition set_node :: "CaliperImpl \<Rightarrow> node_ptr \<Rightarrow> Node \<Rightarrow> CaliperImpl" where
  "set_node s p n =
     (case p of
        Root \<Rightarrow> s\<lparr>m_root := n\<rparr>
      | Idx i \<Rightarrow> s\<lparr>m_nodes := (m_nodes s)[i := n]\<rparr>)"

text \<open>
  Modelled from the spec: \<open>Node::append\<close> (header missing). It fixes the parent of the child
  and puts the child last in the parent's child list.
\<close>

definition Node_append :: "CaliperImpl \<Rightarrow> node_ptr \<Rightarrow> nat \<Rightarrow> fault + CaliperImpl" where
  "Node_append s parent c =
     and_then (deref s (Idx c)) (\<lambda>child.
       let s1 = set_node s (Idx c) (child\<lparr>node_parent := Some parent\<rparr>) in
       and_then (deref s1 parent) (\<lambda>pn.
         Inr (set_node s1 parent (pn\<lparr>node_children := node_children pn @ [c]\<rparr>))))"

text \<open>\<open>create_node\<close> (lines 97-112): the new node's id is \<open>m_nodes.size()\<close>.\<close>

definition create_node :: "CaliperImpl \<Rightarrow> Attribute \<Rightarrow> byte list \<Rightarrow> fault + (nat \<times> CaliperImpl)" where
  "create_node s attr data =
     and_then (wlock (m_nodelock s)) (\<lambda>l1.
       let node = Node_new (length (m_nodes s)) (attr_id attr) data;
           nodes = m_nodes s @ [node]
       in and_then (unlock l1) (\<lambda>l2.
            Inr (length (m_nodes s), s\<lparr>m_nodelock := l2, m_nodes := nodes\<rparr>)))"

text \<open>
  The sibling walk of \<open>begin\<close> and \<open>set\<close>:
  \<open>while (node && !node->equals(attr.id(), data, size)) node = node->next_sibling();\<close>
  over the child list of the parent.
\<close>

fun find_sibling :: "CaliperImpl \<Rightarrow> nat list \<Rightarrow> cali_id_t \<Rightarrow> byte list \<Rightarrow> fault + nat option" where
  "find_sibling s [] a d = Inr None"
| "find_sibling s (c # cs) a d =
     and_then (deref s (Idx c)) (\<lambda>n.
       if equals n a d then Inr (Some c) else find_sibling s cs a d)"

text \<open>
  Lines 154-160 of \<open>begin\<close> and 246-252 of \<open>set\<close>: create the node and append it to the
  parent under the write lock.
\<close>

definition create_child :: "CaliperImpl \<Rightarrow> node_ptr \<Rightarrow> Attribute \<Rightarrow> byte list \<Rightarrow> fault + (nat \<times> CaliperImpl)" where
  "create_child s parent attr data =
     and_then (create_node s attr data) (\<lambda>(n, s1).
       and_then (wlock (m_nodelock s1)) (\<lambda>l1.
         and_then (Node_append (s1\<lparr>m_nodelock := l1\<rparr>) parent n) (\<lambda>s2.
           and_then (unlock (m_nodelock s2)) (\<lambda>l2.
             Inr (n, s2\<lparr>m_nodelock := l2\<rparr>)))))"

text \<open>
  Lines 146-161 of \<open>begin\<close> and 238-253 of \<open>set\<close>, which are the same text: with the read
  lock held, walk the children of \<open>parent\<close>; release the lock; when the walk found no node,
  create one and append it.
\<close>

definition find_or_create ::
  "CaliperImpl \<Rightarrow> node_ptr \<Rightarrow> Attribute \<Rightarrow> byte list \<Rightarrow> fault + (nat \<times> CaliperImpl)" where
  "find_or_create s1 parent attr data =
     and_then (deref s1 parent) (\<lambda>pn.
     and_then (find_sibling s1 (node_children pn) (attr_id attr) data) (\<lambda>node.
     and_then (unlock (m_nodelock s1)) (\<lambda>l2.
       let s2 = s1\<lparr>m_nodelock := l2\<rparr> in
       (case node of
          Some n \<Rightarrow> Inr (n, s2)
        | None \<Rightarrow> create_child s2 parent attr data))))"

text \<open>
  \<open>memcpy(&val, data, sizeof(uint64_t))\<close> on the little-endian hosts the library runs on
  (the snapshot format of the spec is little-endian).
\<close>

definition le64 :: "byte list \<Rightarrow> 64 word" where
  "le64 data = foldr (\<lambda>b acc. ucast b + push_bit 8 acc) (take 8 data) 0"


section \<open>The annotation interface\<close>

text \<open>
  Every operation takes the state of the \<open>CaliperImpl\<close> object and returns either a fault or
  its return value with the state it leaves. The event calls at the end of each operation
  (\<open>m_events.beginEvt\<close> and the like) visit an empty observer list.
\<close>

text \<open>\<open>CaliperImpl::begin\<close> (lines 128-170).\<close>

definition begin_impl ::
  "CaliperImpl \<Rightarrow> cali_id_t \<Rightarrow> Attribute \<Rightarrow> byte list \<Rightarrow> fault + (cali_err \<times> CaliperImpl)" where
  "begin_impl s env attr data =
     (if is_invalid attr then Inr (CALI_EINV, s)
      else
        let key = attr_id attr in
        if store_as_value attr \<and> length data = 8 then
          (let val = le64 data;
               (ret, c) = Context_set (m_context s) env key (Inline val) (is_global attr)
           in Inr (ret, s\<lparr>m_context := c\<rparr>))
        else
          (let p = Context_get (m_context s) env key in
           and_then (rlock (m_nodelock s)) (\<lambda>l1.
             let s1 = s\<lparr>m_nodelock := l1\<rparr> in
             and_then (case p of Some e \<Rightarrow> nodes_at s1 (slot_raw e) | None \<Rightarrow> Inr Root) (\<lambda>parent.
             and_then (find_or_create s1 parent attr data) (\<lambda>(n, s3).
             and_then (deref s3 (Idx n)) (\<lambda>nn.
               let (ret, c) = Context_set (m_context s3) env key (Reference (node_id nn)) (is_global attr)
               in Inr (ret, s3\<lparr>m_context := c\<rparr>)))))))"

text \<open>
  The loop of \<open>end\<close> (lines 191-198),
  \<open>while (node && node->attribute() != attr.id()) node = node->parent();\<close>.
  The guarding \<open>if\<close> around it repeats the loop's own first test. On a parent chain that
  runs in a circle the loop never ends, and the value is \<open>None\<close>.
\<close>

partial_function (option) walk_up ::
  "CaliperImpl \<Rightarrow> cali_id_t \<Rightarrow> node_ptr option \<Rightarrow> (fault + node_ptr option) option" where
  "walk_up s a node =
     (case node of
        None \<Rightarrow> Some (Inr None)
      | Some p \<Rightarrow>
          (case deref s p of
             Inl e \<Rightarrow> Some (Inl e)
           | Inr n \<Rightarrow>
               if node_attribute n \<noteq> a then walk_up s a (node_parent n)
               else Some (Inr (Some p))))"

text \<open>
  \<open>CaliperImpl::end\<close> (lines 172-213). The return inside the locked region (line 197) leaves
  with the read lock as it is. The call \<open>m_context.set(env, key, node->id())\<close> of line 206
  has no fourth argument.
\<close>

definition end_impl ::
  "CaliperImpl \<Rightarrow> cali_id_t \<Rightarrow> Attribute \<Rightarrow> (fault + (cali_err \<times> CaliperImpl)) option" where
  "end_impl s env attr =
     (if is_invalid attr then Some (Inr (CALI_EINV, s))
      else
        let key = attr_id attr in
        if store_as_value attr then
          (let (ret, c) = Context_unset (m_context s) env key
           in Some (Inr (ret, s\<lparr>m_context := c\<rparr>)))
        else
          (case Context_get (m_context s) env key of
             None \<Rightarrow> Some (Inr (CALI_EINV, s))
           | Some e \<Rightarrow>
               (case rlock (m_nodelock s) of
                  Inl f \<Rightarrow> Some (Inl f)
                | Inr l1 \<Rightarrow>
                    let s1 = s\<lparr>m_nodelock := l1\<rparr> in
                    (case nodes_at s1 (slot_raw e) of
                       Inl f \<Rightarrow> Some (Inl f)
                     | Inr node \<Rightarrow>
                         (case walk_up s1 key (Some node) of
                            None \<Rightarrow> None
                          | Some (Inl f) \<Rightarrow> Some (Inl f)
                          | Some (Inr None) \<Rightarrow> Some (Inr (CALI_EINV, s1))
                          | Some (Inr (Some q)) \<Rightarrow>
                              Some (and_then (deref s1 q) (\<lambda>n.
                                let parent = node_parent n in
                                and_then (unlock (m_nodelock s1)) (\<lambda>l2.
                                  let s2 = s1\<lparr>m_nodelock := l2\<rparr> in
                                  (case parent of
                                     Some Root \<Rightarrow>
                                       (let (ret, c) = Context_unset (m_context s2) env key
                                        in Inr (ret, s2\<lparr>m_context := c\<rparr>))
                                   | Some (Idx i) \<Rightarrow>
                                       and_then (deref s2 (Idx i)) (\<lambda>pn.
                                         let (ret, c) = Context_set (m_context s2) env key
                                                          (Reference (node_id pn))
                                                          Context_set_global_default
                                         in Inr (ret, s2\<lparr>m_context := c\<rparr>))
                                   | None \<Rightarrow> Inr (CALI_EINV, s2))))))))))"

text \<open>\<open>CaliperImpl::set\<close> (lines 215-262).\<close>

definition set_impl ::
  "CaliperImpl \<Rightarrow> cali_id_t \<Rightarrow> Attribute \<Rightarrow> byte list \<Rightarrow> fault + (cali_err \<times> CaliperImpl)" where
  "set_impl s env attr data =
     (if is_invalid attr then Inr (CALI_EINV, s)
      else
        let key = attr_id attr in
        if store_as_value attr \<and> length data = 8 then
          (let val = le64 data;
               (ret, c) = Context_set (m_context s) env key (Inline val) (is_global attr)
           in Inr (ret, s\<lparr>m_context := c\<rparr>))
        else
          (let p = Context_get (m_context s) env key in
           and_then (rlock (m_nodelock s)) (\<lambda>l1.
             let s1 = s\<lparr>m_nodelock := l1\<rparr> in
             and_then (case p of
                         Some e \<Rightarrow>
                           and_then (nodes_at s1 (slot_raw e)) (\<lambda>cur.
                           and_then (deref s1 cur) (\<lambda>cn. Inr (node_parent cn)))
                       | None \<Rightarrow> Inr None) (\<lambda>parent0.
             let parent = (case parent0 of Some q \<Rightarrow> q | None \<Rightarrow> Root) in
             and_then (find_or_create s1 parent attr data) (\<lambda>(n, s3).
             and_then (deref s3 (Idx n)) (\<lambda>nn.
               let (ret, c) = Context_set (m_context s3) env key (Reference (node_id nn)) (is_global attr)
               in Inr (ret, s3\<lparr>m_context := c\<rparr>)))))))"

text \<open>
  \<open>CaliperImpl::get\<close> (lines 267-278). The guard is \<open>id > m_nodes.size()\<close>; the result is the
  node the pointer names, or \<open>None\<close> for the null pointer.
\<close>

definition get_impl :: "CaliperImpl \<Rightarrow> cali_id_t \<Rightarrow> fault + (Node option \<times> CaliperImpl)" where
  "get_impl s i =
     (if i > length (m_nodes s) then Inr (None, s)
      else
        and_then (rlock (m_nodelock s)) (\<lambda>l1.
          let s1 = s\<lparr>m_nodelock := l1\<rparr> in
          and_then (nodes_at s1 i) (\<lambda>ret.
          and_then (deref s1 ret) (\<lambda>n.
          and_then (unlock (m_nodelock s1)) (\<lambda>l2.
            Inr (Some n, s1\<lparr>m_nodelock := l2\<rparr>))))))"

text \<open>\<open>Caliper::current_environment\<close> and \<open>Caliper::set_environment_callback\<close> (lines 340-368).\<close>

definition current_environment :: "CaliperImpl \<Rightarrow> cali_id_t" where
  "current_environment s = (case m_env_cb s of Some cb \<Rightarrow> cb () | None \<Rightarrow> 0)"

definition set_environment_callback :: "CaliperImpl \<Rightarrow> (unit \<Rightarrow> cali_id_t) option \<Rightarrow> CaliperImpl" where
  "set_environment_callback s cb = s\<lparr>m_env_cb := cb\<rparr>"

text \<open>
  \<open>Caliper::create_attribute\<close> (lines 424-432); the type tag of the attribute plays no part
  in this file and is left out, and the property bit field is the pair of flags read from it.
\<close>

definition create_attribute ::
  "CaliperImpl \<Rightarrow> string \<Rightarrow> bool \<Rightarrow> bool \<Rightarrow> fault + (Attribute \<times> CaliperImpl)" where
  "create_attribute s name asvalue global =
     and_then (wlock (m_attribute_lock s)) (\<lambda>l1.
       let (a, attrs) = AttributeStore_create (m_attributes s) name asvalue global in
       and_then (unlock l1) (\<lambda>l2.
         Inr (a, s\<lparr>m_attribute_lock := l2, m_attributes := attrs\<rparr>)))"


section \<open>The singleton\<close>

text \<open>
  The static members of \<open>CaliperImpl\<close>: the flag \<open>s_siglock\<close> (initially 1), the mutex
  \<open>s_mutex\<close> and the owning pointer \<open>s_caliper\<close>.
\<close>

record Global =
  s_siglock :: int
  s_mutex :: bool
  s_caliper :: "CaliperImpl option"

definition Global_initial :: Global where
  "Global_initial = \<lparr>s_siglock = 1, s_mutex = False, s_caliper = None\<rparr>"

text \<open>
  \<open>CaliperImpl::init\<close> (lines 84-93) reserves capacity, registers the services and logs;
  none of the fields of the record \<open>CaliperImpl\<close> changes.
\<close>

definition CaliperImpl_init :: "CaliperImpl \<Rightarrow> CaliperImpl" where
  "CaliperImpl_init c = c"

text \<open>
  \<open>Caliper::instance\<close> (lines 487-503), as the list of the states the statics pass through,
  one per statement: entry, the mutex taken, the object constructed, \<open>init\<close> run, the flag
  cleared, the mutex released. These are the states in which a signal handler can run.
  A call that finds the mutex taken waits for it.
\<close>

definition instance_trace :: "Global \<Rightarrow> fault + Global list" where
  "instance_trace g =
     (if s_siglock g = 1 then
        (if s_mutex g then Inl Deadlock
         else
           let g1 = g\<lparr>s_mutex := True\<rparr> in
           (case s_caliper g1 of
              None \<Rightarrow>
                (let g2 = g1\<lparr>s_caliper := Some CaliperImpl_new\<rparr>;
                     g3 = g2\<lparr>s_caliper := map_option CaliperImpl_init (s_caliper g2)\<rparr>;
                     g4 = g3\<lparr>s_siglock := 0\<rparr>;
                     g5 = g4\<lparr>s_mutex := False\<rparr>
                 in Inr [g, g1, g2, g3, g4, g5])
            | Some c \<Rightarrow> Inr [g, g1, g1\<lparr>s_mutex := False\<rparr>]))
      else Inr [g])"

definition Caliper_instance :: "Global \<Rightarrow> fault + (CaliperImpl option \<times> Global)" where
  "Caliper_instance g = and_then (instance_trace g) (\<lambda>tr. Inr (s_caliper (last tr), last tr))"

text \<open>\<open>Caliper::try_instance\<close> (lines 505-508): the pointer it returns and the statics it leaves.\<close>

definition Caliper_try_instance :: "Global \<Rightarrow> CaliperImpl option \<times> Global" where
  "Caliper_try_instance g = ((if s_siglock g = 0 then s_caliper g else None), g)"

text \<open>
  The states of the statics that can be observed: the initial one, every state a call of
  \<open>instance\<close> passes through, and any change a member function makes to the object (the
  pointer and the flag stay).
\<close>

inductive observable :: "Global \<Rightarrow> bool" where
  o_initial: "observable Global_initial"
| o_instance: "observable g \<Longrightarrow> instance_trace g = Inr tr \<Longrightarrow> g' \<in> set tr \<Longrightarrow> observable g'"
| o_member: "observable g \<Longrightarrow> s_caliper g = Some c \<Longrightarrow> observable (g\<lparr>s_caliper := Some c'\<rparr>)"

section \<open>Runs of the public interface\<close>

text \<open>
  The calls of the public interface that are followed here: attribute creation, \<open>begin\<close>,
  \<open>end\<close>, \<open>set\<close>, the node lookup \<open>get\<close> (reached through \<open>unpack\<close>) and the environment
  callback. The other calls hand over to code outside this file: \<open>clone_environment\<close>,
  \<open>context_size\<close> and \<open>get_context\<close> to \<open>Context\<close>, \<open>unpack\<close> to \<open>ContextRecord\<close>, the attribute
  lookups to \<open>AttributeStore\<close>, \<open>write_metadata\<close> to a writer service. Of these only
  \<open>clone_environment\<close> changes the state (it adds an environment to the context store); it
  is not followed.
\<close>

datatype op =
    CreateAttribute string bool bool
  | Begin cali_id_t Attribute "byte list"
  | End cali_id_t Attribute
  | Set cali_id_t Attribute "byte list"
  | Get cali_id_t
  | SetEnvironmentCallback "(unit \<Rightarrow> cali_id_t) option"

text \<open>One call, with its return value dropped.\<close>

fun exec :: "CaliperImpl \<Rightarrow> op \<Rightarrow> (fault + CaliperImpl) option" where
  "exec s (CreateAttribute name asvalue global) =
     Some (and_then (create_attribute s name asvalue global) (\<lambda>(a, s'). Inr s'))"
| "exec s (Begin env attr data) =
     Some (and_then (begin_impl s env attr data) (\<lambda>(r, s'). Inr s'))"
| "exec s (End env attr) =
     (case end_impl s env attr of
        None \<Rightarrow> None
      | Some r \<Rightarrow> Some (and_then r (\<lambda>(r, s'). Inr s')))"
| "exec s (Set env attr data) =
     Some (and_then (set_impl s env attr data) (\<lambda>(r, s'). Inr s'))"
| "exec s (Get i) =
     Some (and_then (get_impl s i) (\<lambda>(n, s'). Inr s'))"
| "exec s (SetEnvironmentCallback cb) = Some (Inr (set_environment_callback s cb))"

text \<open>
  A caller holds the attributes the registry handed out (\<open>create_attribute\<close>,
  \<open>get_attribute\<close>), or the invalid sentinel that a failed lookup returns.
\<close>

definition registered :: "CaliperImpl \<Rightarrow> Attribute \<Rightarrow> bool" where
  "registered s attr = (attr \<in> set (m_attributes s) \<or> attr = Attribute_invalid)"

fun allowed :: "CaliperImpl \<Rightarrow> op \<Rightarrow> bool" where
  "allowed s (Begin env attr data) = registered s attr"
| "allowed s (End env attr) = registered s attr"
| "allowed s (Set env attr data) = registered s attr"
| "allowed s (CreateAttribute name asvalue global) = True"
| "allowed s (Get i) = True"
| "allowed s (SetEnvironmentCallback cb) = True"

fun is_callback_op :: "op \<Rightarrow> bool" where
  "is_callback_op (SetEnvironmentCallback cb) = True"
| "is_callback_op (CreateAttribute name asvalue global) = False"
| "is_callback_op (Begin env attr data) = False"
| "is_callback_op (End env attr) = False"
| "is_callback_op (Set env attr data) = False"
| "is_callback_op (Get i) = False"

text \<open>
  \<open>run s ops = Some s'\<close>: the calls \<open>ops\<close>, made in this order from the state \<open>s\<close>, are all
  allowed, all return without a fault, and leave the state \<open>s'\<close>.
\<close>

fun run :: "CaliperImpl \<Rightarrow> op list \<Rightarrow> CaliperImpl option" where
  "run s [] = Some s"
| "run s (x # xs) =
     (if allowed s x then
        (case exec s x of
           Some (Inr s') \<Rightarrow> run s' xs
         | Some (Inl f) \<Rightarrow> None
         | None \<Rightarrow> None)
      else None)"

text \<open>The states a freshly constructed object can be brought into.\<close>

definition reachable :: "CaliperImpl \<Rightarrow> bool" where
  "reachable s = (\<exists>ops. run CaliperImpl_new ops = Some s)"

section \<open>Invariants of the node tree and the context\<close>

text \<open>
  What holds of the node vector in every reachable state: the node at index \<open>i\<close> has the id
  \<open>i\<close>; the root has no parent and carries the invalid attribute id; every node has a
  parent, the root or a node created before it; the child list of a node (or of the root)
  holds exactly the nodes whose parent it is; no two nodes agree on parent, attribute id and
  payload; and between two calls the node lock is free.
\<close>

definition ids_inv :: "CaliperImpl \<Rightarrow> bool" where
  "ids_inv s = (\<forall>i < length (m_nodes s). node_id (m_nodes s ! i) = i)"

definition root_inv :: "CaliperImpl \<Rightarrow> bool" where
  "root_inv s = (node_parent (m_root s) = None \<and> node_attribute (m_root s) = CALI_INV_ID)"

definition parents_inv :: "CaliperImpl \<Rightarrow> bool" where
  "parents_inv s =
     (\<forall>i < length (m_nodes s).
        node_parent (m_nodes s ! i) = Some Root \<or>
        (\<exists>j < i. node_parent (m_nodes s ! i) = Some (Idx j)))"

definition children_inv :: "CaliperImpl \<Rightarrow> bool" where
  "children_inv s =
     ((\<forall>c. c \<in> set (node_children (m_root s)) \<longleftrightarrow>
            c < length (m_nodes s) \<and> node_parent (m_nodes s ! c) = Some Root) \<and>
      (\<forall>j < length (m_nodes s). \<forall>c.
            c \<in> set (node_children (m_nodes s ! j)) \<longleftrightarrow>
            c < length (m_nodes s) \<and> node_parent (m_nodes s ! c) = Some (Idx j)))"

definition nodup_inv :: "CaliperImpl \<Rightarrow> bool" where
  "nodup_inv s =
     (\<forall>i < length (m_nodes s). \<forall>j < length (m_nodes s).
        node_parent (m_nodes s ! i) = node_parent (m_nodes s ! j) \<and>
        node_attribute (m_nodes s ! i) = node_attribute (m_nodes s ! j) \<and>
        node_data (m_nodes s ! i) = node_data (m_nodes s ! j) \<longrightarrow> i = j)"

definition tree_inv :: "CaliperImpl \<Rightarrow> bool" where
  "tree_inv s =
     (ids_inv s \<and> root_inv s \<and> parents_inv s \<and> children_inv s \<and> nodup_inv s \<and>
      m_nodelock s = lock_free)"

text \<open>The registry: its lock is free between two calls, and attribute ids are indices.\<close>

definition registry_inv :: "CaliperImpl \<Rightarrow> bool" where
  "registry_inv s =
     (m_attribute_lock s = lock_free \<and>
      (\<forall>i < length (m_attributes s). attr_id (m_attributes s ! i) = i))"

text \<open>
  The context: a reference entry under a key names a node that carries the key; an inline
  entry stands under the key of a store-as-value attribute only; the overlay holds entries
  of global attributes only.
\<close>

fun slot_ok :: "CaliperImpl \<Rightarrow> cali_id_t \<Rightarrow> slot \<Rightarrow> bool" where
  "slot_ok s key (Reference i) =
     (i < length (m_nodes s) \<and> node_attribute (m_nodes s ! i) = key)"
| "slot_ok s key (Inline w) =
     (key < length (m_attributes s) \<and> store_as_value (m_attributes s ! key))"

definition ctx_inv :: "CaliperImpl \<Rightarrow> bool" where
  "ctx_inv s =
     ((\<forall>env key e. ctx_env (m_context s) env key = Some e \<longrightarrow> slot_ok s key e) \<and>
      (\<forall>key e. ctx_global (m_context s) key = Some e \<longrightarrow>
         slot_ok s key e \<and> key < length (m_attributes s) \<and> is_global (m_attributes s ! key)))"

text \<open>
  Every node carries a registered attribute, and a node of an attribute that is not
  store-as-value hangs under the root or under a node of the same attribute.
\<close>

definition chain_inv :: "CaliperImpl \<Rightarrow> bool" where
  "chain_inv s =
     (\<forall>i < length (m_nodes s).
        node_attribute (m_nodes s ! i) < length (m_attributes s) \<and>
        (\<not> store_as_value (m_attributes s ! node_attribute (m_nodes s ! i)) \<longrightarrow>
           node_parent (m_nodes s ! i) = Some Root \<or>
           (\<exists>j. node_parent (m_nodes s ! i) = Some (Idx j) \<and>
                node_attribute (m_nodes s ! j) = node_attribute (m_nodes s ! i))))"

definition state_inv :: "CaliperImpl \<Rightarrow> bool" where
  "state_inv s = (tree_inv s \<and> registry_inv s \<and> ctx_inv s \<and> chain_inv s)"

text \<open>The pointers that name a node of the state.\<close>

fun valid_ptr :: "CaliperImpl \<Rightarrow> node_ptr \<Rightarrow> bool" where
  "valid_ptr s Root = True"
| "valid_ptr s (Idx i) = (i < length (m_nodes s))"

text \<open>
  What \<open>create_child\<close> does to a state whose lock is free: a new last node with the next
  id, under \<open>p\<close>, and last among the children of \<open>p\<close>.
\<close>

definition add_child :: "CaliperImpl \<Rightarrow> node_ptr \<Rightarrow> cali_id_t \<Rightarrow> byte list \<Rightarrow> CaliperImpl" where
  "add_child s p a d =
     (let n = length (m_nodes s);
          node = \<lparr>node_id = n, node_attribute = a, node_data = d,
                  node_parent = Some p, node_children = []\<rparr>
      in case p of
           Root \<Rightarrow>
             s\<lparr>m_nodes := m_nodes s @ [node],
               m_root := (m_root s)\<lparr>node_children := node_children (m_root s) @ [n]\<rparr>\<rparr>
         | Idx j \<Rightarrow>
             s\<lparr>m_nodes := (m_nodes s)[j := (m_nodes s ! j)\<lparr>node_children :=
                                             node_children (m_nodes s ! j) @ [n]\<rparr>] @ [node]\<rparr>)"


section \<open>Notions the properties are stated with\<close>

text \<open>The node a valid pointer names.\<close>

definition node_at :: "CaliperImpl \<Rightarrow> node_ptr \<Rightarrow> Node" where
  "node_at s p = (case p of Root \<Rightarrow> m_root s | Idx i \<Rightarrow> m_nodes s ! i)"

text \<open>
  The first child of \<open>p\<close> that carries the attribute id \<open>a\<close> and the payload \<open>d\<close>, if any.
\<close>

definition child_with :: "CaliperImpl \<Rightarrow> node_ptr \<Rightarrow> cali_id_t \<Rightarrow> byte list \<Rightarrow> nat option" where
  "child_with s p a d = find (\<lambda>c. equals (m_nodes s ! c) a d) (node_children (node_at s p))"

text \<open>
  The node under which \<open>begin\<close> looks: the current node of (env, attr), or the root when
  there is no current entry.
\<close>

definition begin_parent :: "CaliperImpl \<Rightarrow> cali_id_t \<Rightarrow> Attribute \<Rightarrow> node_ptr" where
  "begin_parent s env attr =
     (case Context_get (m_context s) env (attr_id attr) of
        None \<Rightarrow> Root
      | Some e \<Rightarrow> Idx (slot_raw e))"

text \<open>
  The node under which \<open>set\<close> looks: the parent of the current node of (env, attr); the
  root when there is no current entry or the current node has no parent.
\<close>

definition set_parent :: "CaliperImpl \<Rightarrow> cali_id_t \<Rightarrow> Attribute \<Rightarrow> node_ptr" where
  "set_parent s env attr =
     (case Context_get (m_context s) env (attr_id attr) of
        None \<Rightarrow> Root
      | Some e \<Rightarrow>
          (case node_parent (m_nodes s ! slot_raw e) of
             Some q \<Rightarrow> q
           | None \<Rightarrow> Root))"

text \<open>
  The parent chain of node \<open>i\<close>, the node itself first and the root last. A parent created
  by \<open>create_node\<close> has a smaller index than its child; a link that does not go down ends
  the list.
\<close>

function parent_chain :: "CaliperImpl \<Rightarrow> nat \<Rightarrow> node_ptr list" where
  "parent_chain s i =
     Idx i # (case node_parent (m_nodes s ! i) of
                Some (Idx j) \<Rightarrow> if j < i then parent_chain s j else []
              | Some Root \<Rightarrow> [Root]
              | None \<Rightarrow> [])"
  by pat_completeness auto
termination
  by (relation "measure (\<lambda>(s, i). i)") auto

text \<open>The node that \<open>p\<close> names carries the attribute id \<open>a\<close>.\<close>

definition carries :: "CaliperImpl \<Rightarrow> cali_id_t \<Rightarrow> node_ptr \<Rightarrow> bool" where
  "carries s a p = (node_attribute (node_at s p) = a)"

text \<open>
  The nearest node on the parent chain of node \<open>i\<close> (the node itself included) that carries
  the attribute id \<open>a\<close>.
\<close>

definition nearest_carrying :: "CaliperImpl \<Rightarrow> cali_id_t \<Rightarrow> nat \<Rightarrow> node_ptr option" where
  "nearest_carrying s a i = find (carries s a) (parent_chain s i)"

text \<open>
  Every node of \<open>s\<close> is still a node of \<open>s'\<close>, at the same index, with the same id, attribute,
  payload and parent.
\<close>

definition nodes_kept :: "CaliperImpl \<Rightarrow> CaliperImpl \<Rightarrow> bool" where
  "nodes_kept s s' =
     (length (m_nodes s) \<le> length (m_nodes s') \<and>
      (\<forall>i < length (m_nodes s).
         node_id (m_nodes s' ! i) = node_id (m_nodes s ! i) \<and>
         node_attribute (m_nodes s' ! i) = node_attribute (m_nodes s ! i) \<and>
         node_data (m_nodes s' ! i) = node_data (m_nodes s ! i) \<and>
         node_parent (m_nodes s' ! i) = node_parent (m_nodes s ! i)))"

section \<open>Examples used by the closed theorems\<close>

definition phase_attr :: Attribute where
  "phase_attr = \<lparr>attr_id = 0, attr_name = ''phase'', store_as_value = False, is_global = False\<rparr>"

definition count_attr :: Attribute where
  "count_attr = \<lparr>attr_id = 1, attr_name = ''count'', store_as_value = True, is_global = False\<rparr>"

definition host_attr :: Attribute where
  "host_attr = \<lparr>attr_id = 0, attr_name = ''host'', store_as_value = False, is_global = True\<rparr>"

text \<open>The statics after the first call of \<open>instance\<close>.\<close>

definition Global_ready :: Global where
  "Global_ready = \<lparr>s_siglock = 0, s_mutex = False, s_caliper = Some CaliperImpl_new\<rparr>"

text \<open>
  The slot that \<open>begin\<close> and \<open>set\<close> write for an attribute: in the overlay for a global
  attribute, in the map of the environment otherwise.
\<close>

definition entry_written :: "CaliperImpl \<Rightarrow> cali_id_t \<Rightarrow> Attribute \<Rightarrow> slot option" where
  "entry_written s env attr =
     (if is_global attr then ctx_global (m_context s) (attr_id attr)
      else ctx_env (m_context s) env (attr_id attr))"

text \<open>
  A run that ends with the entry of attribute 1 holding the scalar 0 while node 0 carries
  attribute 0.
\<close>

definition leak_ops :: "op list" where
  "leak_ops =
     [CreateAttribute ''phase'' False False, CreateAttribute ''count'' True False,
      Begin 0 phase_attr [120], Begin 0 count_attr [0, 0, 0, 0, 0, 0, 0, 0]]"

text \<open>Short runs on a fresh object.\<close>

definition one_begin :: "op list" where
  "one_begin = [CreateAttribute ''phase'' False False, Begin 0 phase_attr [65]]"

definition two_begins :: "op list" where
  "two_begins = [CreateAttribute ''phase'' False False, Begin 0 phase_attr [65], Begin 0 phase_attr [66]]"

definition begin_end :: "op list" where
  "begin_end = [CreateAttribute ''phase'' False False, Begin 0 phase_attr [88], End 0 phase_attr]"

text \<open>
  A run that leaves node 1 (attribute 1, one byte of payload) under node 0 (attribute 0):
  the second \<open>begin\<close> on the store-as-value attribute takes the node branch and reads the
  scalar 0 of the first one as a node index.
\<close>

definition mixed_chain :: "op list" where
  "mixed_chain =
     [CreateAttribute ''phase'' False False, CreateAttribute ''count'' True False,
      Begin 0 phase_attr [65], Begin 0 count_attr [0, 0, 0, 0, 0, 0, 0, 0], Begin 0 count_attr [9]]"

section \<open>Evaluation\<close>

declare Context_set_global_default_def [simp]

lemma and_then_simps [simp]:
  "and_then (Inl e) f = Inl e"
  "and_then (Inr x) f = f x"
  by (simp_all add: and_then_def)

lemmas lock_defs = lock_free_def rlock_def wlock_def unlock_def

lemmas eval_defs = begin_impl_def end_impl_def set_impl_def get_impl_def create_attribute_def
  CaliperImpl_new_def lock_defs nodes_at_def deref_def Context_get_def Context_set_def
  Context_unset_def Context_new_def is_invalid_def Attribute_invalid_def CALI_INV_ID_def
  find_or_create_def create_child_def create_node_def Node_append_def set_node_def Node_new_def equals_def
  AttributeStore_create_def registered_def set_environment_callback_def current_environment_def
  le64_def Let_def

section \<open>The operations on a well-formed tree\<close>

lemma run_Cons_Some:
  "run s (x # xs) = Some s' \<Longrightarrow> \<exists>s1. allowed s x \<and> exec s x = Some (Inr s1) \<and> run s1 xs = Some s'"
  by (auto split: if_splits option.splits sum.splits)

subsection \<open>Pointers and the sibling walk\<close>

lemma nodelock_idem: "m_nodelock s = l \<Longrightarrow> s\<lparr>m_nodelock := l\<rparr> = s"
  by (cases s) simp

lemma deref_valid:
  "valid_ptr s p \<Longrightarrow> deref s p = Inr (case p of Root \<Rightarrow> m_root s | Idx i \<Rightarrow> m_nodes s ! i)"
  by (cases p) (simp_all add: deref_def)

lemma find_sibling_find:
  "\<forall>c \<in> set cs. c < length (m_nodes s) \<Longrightarrow>
   find_sibling s cs a d = Inr (find (\<lambda>c. equals (m_nodes s ! c) a d) cs)"
  by (induction cs) (simp_all add: deref_def)

lemma create_child_add_child:
  assumes "m_nodelock s = lock_free" and "valid_ptr s p"
  shows "create_child s p attr d = Inr (length (m_nodes s), add_child s p (attr_id attr) d)"
proof (cases p)
  case Root
  with assms show ?thesis
    by (cases s) (simp add: create_child_def create_node_def Node_append_def set_node_def deref_def
        add_child_def Node_new_def lock_defs Let_def)
next
  case (Idx j)
  with assms show ?thesis
    by (cases s) (simp add: create_child_def create_node_def Node_append_def set_node_def deref_def
        add_child_def Node_new_def lock_defs Let_def nth_append list_update_append)
qed

subsection \<open>A new child keeps the tree well-formed\<close>

lemma add_child_length [simp]:
  "length (m_nodes (add_child s p a d)) = Suc (length (m_nodes s))"
  by (cases p) (simp_all add: add_child_def Let_def)

lemma add_child_frame [simp]:
  "m_context (add_child s p a d) = m_context s"
  "m_attributes (add_child s p a d) = m_attributes s"
  "m_attribute_lock (add_child s p a d) = m_attribute_lock s"
  "m_env_cb (add_child s p a d) = m_env_cb s"
  "m_nodelock (add_child s p a d) = m_nodelock s"
  by (cases p; simp add: add_child_def Let_def)+

lemma add_child_nth_new [simp]:
  "m_nodes (add_child s p a d) ! length (m_nodes s) =
     \<lparr>node_id = length (m_nodes s), node_attribute = a, node_data = d,
      node_parent = Some p, node_children = []\<rparr>"
  by (cases p) (simp_all add: add_child_def Let_def nth_append)

lemma add_child_nth_old:
  "i < length (m_nodes s) \<Longrightarrow>
   m_nodes (add_child s p a d) ! i =
     (if p = Idx i
      then (m_nodes s ! i)\<lparr>node_children := node_children (m_nodes s ! i) @ [length (m_nodes s)]\<rparr>
      else m_nodes s ! i)"
  by (cases p) (simp_all add: add_child_def Let_def nth_append nth_list_update)

lemma add_child_nth_old_fields [simp]:
  assumes "i < length (m_nodes s)"
  shows "node_id (m_nodes (add_child s p a d) ! i) = node_id (m_nodes s ! i)"
    and "node_attribute (m_nodes (add_child s p a d) ! i) = node_attribute (m_nodes s ! i)"
    and "node_data (m_nodes (add_child s p a d) ! i) = node_data (m_nodes s ! i)"
    and "node_parent (m_nodes (add_child s p a d) ! i) = node_parent (m_nodes s ! i)"
    and "node_children (m_nodes (add_child s p a d) ! i) =
           (if p = Idx i then node_children (m_nodes s ! i) @ [length (m_nodes s)]
            else node_children (m_nodes s ! i))"
  using assms by (simp_all add: add_child_nth_old)

lemma add_child_root [simp]:
  "node_id (m_root (add_child s p a d)) = node_id (m_root s)"
  "node_attribute (m_root (add_child s p a d)) = node_attribute (m_root s)"
  "node_data (m_root (add_child s p a d)) = node_data (m_root s)"
  "node_parent (m_root (add_child s p a d)) = node_parent (m_root s)"
  "node_children (m_root (add_child s p a d)) =
     (if p = Root then node_children (m_root s) @ [length (m_nodes s)]
      else node_children (m_root s))"
  by (cases p; simp add: add_child_def Let_def)+

lemma add_child_ids_inv:
  "ids_inv s \<Longrightarrow> ids_inv (add_child s p a d)"
  by (auto simp: ids_inv_def less_Suc_eq)

lemma add_child_root_inv:
  "root_inv s \<Longrightarrow> root_inv (add_child s p a d)"
  by (simp add: root_inv_def)

lemma add_child_parents_inv:
  "parents_inv s \<Longrightarrow> valid_ptr s p \<Longrightarrow> parents_inv (add_child s p a d)"
  by (cases p) (auto simp: parents_inv_def less_Suc_eq)

lemma parents_inv_below:
  "parents_inv s \<Longrightarrow> c < length (m_nodes s) \<Longrightarrow> node_parent (m_nodes s ! c) = Some (Idx j) \<Longrightarrow> j < c"
  by (auto simp: parents_inv_def)

lemma add_child_children_inv:
  assumes "children_inv s" and "parents_inv s" and "valid_ptr s p"
  shows "children_inv (add_child s p a d)"
proof -
  let ?n = "length (m_nodes s)"
  let ?s = "add_child s p a d"
  have root: "\<And>c. c \<in> set (node_children (m_root s)) \<longleftrightarrow>
            c < ?n \<and> node_parent (m_nodes s ! c) = Some Root"
    and node: "\<And>j c. j < ?n \<Longrightarrow> c \<in> set (node_children (m_nodes s ! j)) \<longleftrightarrow>
            c < ?n \<and> node_parent (m_nodes s ! c) = Some (Idx j)"
    using assms(1) by (simp_all add: children_inv_def)
  have below: "\<And>c j. c < ?n \<Longrightarrow> node_parent (m_nodes s ! c) = Some (Idx j) \<Longrightarrow> j < c"
    using parents_inv_below [OF assms(2)] by blast
  have pv: "p = Root \<or> (\<exists>j < ?n. p = Idx j)"
    using assms(3) by (cases p) simp_all
  have a: "\<And>c. c \<in> set (node_children (m_root ?s)) \<longleftrightarrow>
            c < Suc ?n \<and> node_parent (m_nodes ?s ! c) = Some Root"
  proof -
    fix c
    show "c \<in> set (node_children (m_root ?s)) \<longleftrightarrow>
            c < Suc ?n \<and> node_parent (m_nodes ?s ! c) = Some Root"
    proof (cases "c < ?n")
      case True
      then show ?thesis using root [of c] by simp
    next
      case False
      then show ?thesis using root [of c] by (auto simp: less_Suc_eq)
    qed
  qed
  have b: "\<And>j c. j < Suc ?n \<Longrightarrow> c \<in> set (node_children (m_nodes ?s ! j)) \<longleftrightarrow>
            c < Suc ?n \<and> node_parent (m_nodes ?s ! c) = Some (Idx j)"
  proof -
    fix j c
    assume j: "j < Suc ?n"
    show "c \<in> set (node_children (m_nodes ?s ! j)) \<longleftrightarrow>
            c < Suc ?n \<and> node_parent (m_nodes ?s ! c) = Some (Idx j)"
    proof (cases "j < ?n")
      case jn: True
      show ?thesis
      proof (cases "c < ?n")
        case True
        then show ?thesis using node [OF jn, of c] jn by simp
      next
        case False
        then show ?thesis using node [OF jn, of c] jn by (auto simp: less_Suc_eq)
      qed
    next
      case False
      with j have jn: "j = ?n" by simp
      show ?thesis
      proof (cases "c < ?n")
        case True
        then show ?thesis using below [of c ?n] jn by auto
      next
        case False
        then show ?thesis using pv jn by (auto simp: less_Suc_eq)
      qed
    qed
  qed
  from a b show ?thesis by (simp add: children_inv_def)
qed

lemma add_child_nodup_inv:
  assumes "nodup_inv s"
    and "\<forall>c < length (m_nodes s). \<not> (node_parent (m_nodes s ! c) = Some p \<and> equals (m_nodes s ! c) a d)"
  shows "nodup_inv (add_child s p a d)"
  using assms
  by (auto simp: nodup_inv_def less_Suc_eq equals_def)

lemma add_child_tree_inv:
  assumes "tree_inv s" and "valid_ptr s p"
    and "\<forall>c < length (m_nodes s). \<not> (node_parent (m_nodes s ! c) = Some p \<and> equals (m_nodes s ! c) a d)"
  shows "tree_inv (add_child s p a d)"
  using assms
  by (simp add: tree_inv_def add_child_ids_inv add_child_root_inv add_child_parents_inv
      add_child_children_inv add_child_nodup_inv)

subsection \<open>\<open>find_or_create\<close>, \<open>begin\<close> and \<open>set\<close> on a well-formed tree\<close>

lemma children_below:
  "children_inv s \<Longrightarrow> valid_ptr s p \<Longrightarrow> c \<in> set (node_children (node_at s p)) \<longleftrightarrow>
     c < length (m_nodes s) \<and> node_parent (m_nodes s ! c) = Some p"
  by (cases p) (simp_all add: children_inv_def node_at_def)

lemma child_with_Some:
  assumes "children_inv s" and "valid_ptr s p" and "child_with s p a d = Some c"
  shows "c < length (m_nodes s) \<and> node_parent (m_nodes s ! c) = Some p \<and> equals (m_nodes s ! c) a d"
proof -
  from assms(3) have "c \<in> set (node_children (node_at s p))" and "equals (m_nodes s ! c) a d"
    by (auto simp: child_with_def find_Some_iff)
  with children_below [OF assms(1,2)] show ?thesis by blast
qed

lemma child_with_None:
  assumes "children_inv s" and "valid_ptr s p" and "child_with s p a d = None"
  shows "\<forall>c < length (m_nodes s). \<not> (node_parent (m_nodes s ! c) = Some p \<and> equals (m_nodes s ! c) a d)"
  using assms(3) children_below [OF assms(1,2)]
  by (auto simp: child_with_def find_None_iff)

lemma child_with_unique:
  assumes "children_inv s" and "nodup_inv s" and "valid_ptr s p"
    and "c < length (m_nodes s)" and "node_parent (m_nodes s ! c) = Some p"
    and "equals (m_nodes s ! c) a d"
  shows "child_with s p a d = Some c"
proof (cases "child_with s p a d")
  case None
  from child_with_None [OF assms(1,3) None] assms(4-6) show ?thesis by blast
next
  case (Some c')
  from child_with_Some [OF assms(1,3) Some] assms(2,4-6) have "c' = c"
    unfolding nodup_inv_def equals_def by (metis (no_types, lifting))
  with Some show ?thesis by simp
qed

lemma find_or_create_eq:
  assumes "tree_inv s" and "valid_ptr s p" and "unlock l = Inr lock_free"
  shows "find_or_create (s\<lparr>m_nodelock := l\<rparr>) p attr d =
           (case child_with s p (attr_id attr) d of
              Some c \<Rightarrow> Inr (c, s)
            | None \<Rightarrow> Inr (length (m_nodes s), add_child s p (attr_id attr) d))"
proof -
  from assms(1) have ci: "children_inv s" and lf: "m_nodelock s = lock_free"
    by (simp_all add: tree_inv_def)
  have v: "valid_ptr (s\<lparr>m_nodelock := l\<rparr>) p"
    using assms(2) by (cases p) simp_all
  have d: "deref (s\<lparr>m_nodelock := l\<rparr>) p = Inr (node_at s p)"
    using deref_valid [OF v] by (cases p) (simp_all add: node_at_def)
  have "\<forall>c \<in> set (node_children (node_at s p)). c < length (m_nodes (s\<lparr>m_nodelock := l\<rparr>))"
    using children_below [OF ci assms(2)] by simp
  from find_sibling_find [OF this]
  have f: "find_sibling (s\<lparr>m_nodelock := l\<rparr>) (node_children (node_at s p)) (attr_id attr) d =
             Inr (child_with s p (attr_id attr) d)"
    by (simp add: child_with_def)
  have same: "s\<lparr>m_nodelock := lock_free\<rparr> = s"
    using nodelock_idem [OF lf] .
  show ?thesis
    by (simp add: find_or_create_def d f assms(3) Let_def same
        create_child_add_child [OF lf assms(2)] split: option.split)
qed

lemma rlock_free: "rlock lock_free = Inr \<lparr>lock_readers = Suc 0, lock_writer = False\<rparr>"
  by (simp add: lock_defs)

lemma unlock_rlocked: "unlock \<lparr>lock_readers = Suc 0, lock_writer = False\<rparr> = Inr lock_free"
  by (simp add: lock_defs)

lemma begin_impl_eq:
  assumes "tree_inv s" and "\<not> is_invalid attr" and "\<not> (store_as_value attr \<and> length d = 8)"
    and "valid_ptr s (begin_parent s env attr)"
  shows "begin_impl s env attr d =
           (case child_with s (begin_parent s env attr) (attr_id attr) d of
              Some c \<Rightarrow>
                Inr (CALI_SUCCESS,
                     s\<lparr>m_context := snd (Context_set (m_context s) env (attr_id attr)
                                           (Reference (node_id (m_nodes s ! c))) (is_global attr))\<rparr>)
            | None \<Rightarrow>
                Inr (CALI_SUCCESS,
                     (add_child s (begin_parent s env attr) (attr_id attr) d)
                       \<lparr>m_context := snd (Context_set (m_context s) env (attr_id attr)
                                           (Reference (length (m_nodes s))) (is_global attr))\<rparr>))"
proof -
  let ?p = "begin_parent s env attr"
  let ?l = "\<lparr>lock_readers = Suc 0, lock_writer = False\<rparr>"
  from assms(1) have lf: "m_nodelock s = lock_free" and ci: "children_inv s"
    by (simp_all add: tree_inv_def)
  have par: "(case Context_get (m_context s) env (attr_id attr) of
                Some e \<Rightarrow> nodes_at (s\<lparr>m_nodelock := ?l\<rparr>) (slot_raw e)
              | None \<Rightarrow> Inr Root) = Inr ?p"
    using assms(4) by (auto simp: begin_parent_def nodes_at_def split: option.splits)
  note foc = find_or_create_eq [OF assms(1) assms(4) unlock_rlocked, of attr d]
  from assms(3) have nv: "(store_as_value attr \<and> length d = 8) = False"
    by simp
  show ?thesis
  proof (cases "child_with s ?p (attr_id attr) d")
    case None
    then show ?thesis
      using assms(2)
      by (simp add: begin_impl_def Let_def lf rlock_free par foc deref_def Context_set_def nv)
  next
    case (Some c)
    from child_with_Some [OF ci assms(4) Some] have "c < length (m_nodes s)" by simp
    with Some show ?thesis
      using assms(2)
      by (simp add: begin_impl_def Let_def lf rlock_free par foc deref_def Context_set_def nv)
  qed
qed

declare parent_chain.simps [simp del]

lemma valid_set_parent:
  assumes "tree_inv s"
    and "\<forall>e. Context_get (m_context s) env (attr_id attr) = Some e \<longrightarrow> slot_raw e < length (m_nodes s)"
  shows "valid_ptr s (set_parent s env attr)"
proof (cases "Context_get (m_context s) env (attr_id attr)")
  case None
  then show ?thesis by (simp add: set_parent_def)
next
  case (Some e)
  with assms(2) have i: "slot_raw e < length (m_nodes s)" by simp
  from assms(1) have "parents_inv s" by (simp add: tree_inv_def)
  with i have "node_parent (m_nodes s ! slot_raw e) = Some Root \<or>
     (\<exists>j < slot_raw e. node_parent (m_nodes s ! slot_raw e) = Some (Idx j))"
    by (simp add: parents_inv_def)
  with i Some show ?thesis by (auto simp: set_parent_def)
qed

lemma set_impl_eq:
  assumes "tree_inv s" and "\<not> is_invalid attr" and "\<not> (store_as_value attr \<and> length d = 8)"
    and "\<forall>e. Context_get (m_context s) env (attr_id attr) = Some e \<longrightarrow> slot_raw e < length (m_nodes s)"
  shows "set_impl s env attr d =
           (case child_with s (set_parent s env attr) (attr_id attr) d of
              Some c \<Rightarrow>
                Inr (CALI_SUCCESS,
                     s\<lparr>m_context := snd (Context_set (m_context s) env (attr_id attr)
                                           (Reference (node_id (m_nodes s ! c))) (is_global attr))\<rparr>)
            | None \<Rightarrow>
                Inr (CALI_SUCCESS,
                     (add_child s (set_parent s env attr) (attr_id attr) d)
                       \<lparr>m_context := snd (Context_set (m_context s) env (attr_id attr)
                                           (Reference (length (m_nodes s))) (is_global attr))\<rparr>))"
proof -
  let ?p = "set_parent s env attr"
  let ?l = "\<lparr>lock_readers = Suc 0, lock_writer = False\<rparr>"
  from assms(1) have lf: "m_nodelock s = lock_free" and ci: "children_inv s"
    by (simp_all add: tree_inv_def)
  note vp = valid_set_parent [OF assms(1,4)]
  note foc = find_or_create_eq [OF assms(1) vp unlock_rlocked, of attr d]
  from assms(3) have nv: "(store_as_value attr \<and> length d = 8) = False"
    by simp
  have *: "set_impl s env attr d =
     and_then (find_or_create (s\<lparr>m_nodelock := ?l\<rparr>) ?p attr d) (\<lambda>(n, s3).
             and_then (deref s3 (Idx n)) (\<lambda>nn.
               let (ret, c) = Context_set (m_context s3) env (attr_id attr) (Reference (node_id nn)) (is_global attr)
               in Inr (ret, s3\<lparr>m_context := c\<rparr>)))"
    using assms(2,4)
    by (auto simp: set_impl_def Let_def lf rlock_free nv set_parent_def nodes_at_def deref_def
        split: option.splits)
  show ?thesis
  proof (cases "child_with s ?p (attr_id attr) d")
    case None
    then show ?thesis
      by (simp add: * foc deref_def Context_set_def)
  next
    case (Some c)
    from child_with_Some [OF ci vp Some] have "c < length (m_nodes s)" by simp
    with Some show ?thesis
      by (simp add: * foc deref_def Context_set_def)
  qed
qed

subsection \<open>The walk of \<open>end\<close> ends on a well-formed tree\<close>

lemma walk_up_None [simp]: "walk_up s a None = Some (Inr None)"
  by (subst walk_up.simps) simp

lemma walk_up_Root:
  "root_inv s \<Longrightarrow> walk_up s a (Some Root) =
     Some (Inr (if node_attribute (m_root s) = a then Some Root else None))"
  by (subst walk_up.simps) (simp add: deref_def root_inv_def)

lemma walk_up_Idx:
  "i < length (m_nodes s) \<Longrightarrow> walk_up s a (Some (Idx i)) =
     (if node_attribute (m_nodes s ! i) \<noteq> a then walk_up s a (node_parent (m_nodes s ! i))
      else Some (Inr (Some (Idx i))))"
  by (subst walk_up.simps) (simp add: deref_def)

lemma walk_up_nearest:
  assumes "root_inv s" and "parents_inv s" and "m_nodes s1 = m_nodes s" and "m_root s1 = m_root s"
  shows "i < length (m_nodes s) \<Longrightarrow>
         walk_up s1 a (Some (Idx i)) = Some (Inr (nearest_carrying s a i))"
proof (induction i rule: less_induct)
  case (less i)
  from assms(2) less.prems
  have par: "node_parent (m_nodes s ! i) = Some Root \<or>
     (\<exists>j < i. node_parent (m_nodes s ! i) = Some (Idx j))"
    by (simp add: parents_inv_def)
  from assms(1,4) have r1: "root_inv s1"
    by (simp add: root_inv_def)
  show ?case
  proof (cases "node_attribute (m_nodes s ! i) = a")
    case True
    then show ?thesis
      using less.prems
      by (simp add: walk_up_Idx assms(3) nearest_carrying_def parent_chain.simps [of s i]
          carries_def node_at_def)
  next
    case False
    from par show ?thesis
    proof
      assume r: "node_parent (m_nodes s ! i) = Some Root"
      with False less.prems show ?thesis
        by (simp add: walk_up_Idx walk_up_Root [OF r1] assms(3,4) nearest_carrying_def
            parent_chain.simps [of s i] carries_def node_at_def)
    next
      assume "\<exists>j < i. node_parent (m_nodes s ! i) = Some (Idx j)"
      then obtain j where j: "j < i" and p: "node_parent (m_nodes s ! i) = Some (Idx j)"
        by blast
      from j less.prems have "j < length (m_nodes s)" by simp
      from less.IH [OF j this] False less.prems j p show ?thesis
        by (simp add: walk_up_Idx assms(3) nearest_carrying_def parent_chain.simps [of s i]
            carries_def node_at_def)
    qed
  qed
qed

lemma parent_chain_valid:
  assumes "parents_inv s"
  shows "i < length (m_nodes s) \<Longrightarrow> \<forall>p \<in> set (parent_chain s i). valid_ptr s p"
proof (induction i rule: less_induct)
  case (less i)
  from assms less.prems
  have par: "node_parent (m_nodes s ! i) = Some Root \<or>
     (\<exists>j < i. node_parent (m_nodes s ! i) = Some (Idx j))"
    by (simp add: parents_inv_def)
  then show ?case
  proof
    assume "node_parent (m_nodes s ! i) = Some Root"
    with less.prems show ?thesis by (simp add: parent_chain.simps [of s i])
  next
    assume "\<exists>j < i. node_parent (m_nodes s ! i) = Some (Idx j)"
    then obtain j where j: "j < i" and p: "node_parent (m_nodes s ! i) = Some (Idx j)"
      by blast
    from j less.prems have "j < length (m_nodes s)" by simp
    from less.IH [OF j this] less.prems j p show ?thesis
      by (simp add: parent_chain.simps [of s i])
  qed
qed

lemma nearest_carrying_Some:
  assumes "root_inv s" and "parents_inv s" and "i < length (m_nodes s)" and "a \<noteq> CALI_INV_ID"
    and "nearest_carrying s a i = Some q"
  shows "\<exists>k < length (m_nodes s). q = Idx k \<and> node_attribute (m_nodes s ! k) = a \<and>
           (node_parent (m_nodes s ! k) = Some Root \<or>
            (\<exists>j < k. node_parent (m_nodes s ! k) = Some (Idx j)))"
proof -
  from assms(5) have m: "q \<in> set (parent_chain s i)" and c: "carries s a q"
    by (auto simp: nearest_carrying_def find_Some_iff)
  from parent_chain_valid [OF assms(2,3)] m have v: "valid_ptr s q" by blast
  from c assms(1,4) have "q \<noteq> Root"
    by (auto simp: carries_def node_at_def root_inv_def)
  with v obtain k where k: "q = Idx k" "k < length (m_nodes s)"
    by (cases q) simp_all
  with c assms(2) show ?thesis
    by (auto simp: carries_def node_at_def parents_inv_def)
qed

lemma end_impl_eq:
  assumes "tree_inv s" and "\<not> is_invalid attr" and "\<not> store_as_value attr"
    and "Context_get (m_context s) env (attr_id attr) = Some e"
    and "slot_raw e < length (m_nodes s)"
  shows "end_impl s env attr =
           (case nearest_carrying s (attr_id attr) (slot_raw e) of
              None \<Rightarrow>
                Some (Inr (CALI_EINV, s\<lparr>m_nodelock := \<lparr>lock_readers = Suc 0, lock_writer = False\<rparr>\<rparr>))
            | Some q \<Rightarrow>
                (case node_parent (node_at s q) of
                   Some Root \<Rightarrow>
                     Some (Inr (fst (Context_unset (m_context s) env (attr_id attr)),
                       s\<lparr>m_context := snd (Context_unset (m_context s) env (attr_id attr))\<rparr>))
                 | Some (Idx j) \<Rightarrow>
                     Some (Inr (CALI_SUCCESS,
                       s\<lparr>m_context := snd (Context_set (m_context s) env (attr_id attr)
                                             (Reference j) False)\<rparr>))
                 | None \<Rightarrow> Some (Inr (CALI_EINV, s))))"
proof -
  let ?l = "\<lparr>lock_readers = Suc 0, lock_writer = False\<rparr>"
  let ?s1 = "s\<lparr>m_nodelock := ?l\<rparr>"
  from assms(1) have lf: "m_nodelock s = lock_free" and ri: "root_inv s" and pi: "parents_inv s"
    and ii: "ids_inv s"
    by (simp_all add: tree_inv_def)
  from assms(2) have valid: "attr_id attr \<noteq> CALI_INV_ID"
    by (simp add: is_invalid_def Attribute_invalid_def)
  have w: "walk_up ?s1 (attr_id attr) (Some (Idx (slot_raw e))) =
             Some (Inr (nearest_carrying s (attr_id attr) (slot_raw e)))"
    by (rule walk_up_nearest [OF ri pi _ _ assms(5)]) simp_all
  have same: "s\<lparr>m_nodelock := lock_free\<rparr> = s"
    using nodelock_idem [OF lf] .
  have *: "end_impl s env attr =
     (case nearest_carrying s (attr_id attr) (slot_raw e) of
        None \<Rightarrow> Some (Inr (CALI_EINV, ?s1))
      | Some q \<Rightarrow>
          Some (and_then (deref ?s1 q) (\<lambda>n.
                  let parent = node_parent n in
                  and_then (unlock (m_nodelock ?s1)) (\<lambda>l2.
                    let s2 = ?s1\<lparr>m_nodelock := l2\<rparr> in
                    (case parent of
                       Some Root \<Rightarrow>
                         (let (ret, c) = Context_unset (m_context s2) env (attr_id attr)
                          in Inr (ret, s2\<lparr>m_context := c\<rparr>))
                     | Some (Idx i) \<Rightarrow>
                         and_then (deref s2 (Idx i)) (\<lambda>pn.
                           let (ret, c) = Context_set (m_context s2) env (attr_id attr)
                                            (Reference (node_id pn)) Context_set_global_default
                           in Inr (ret, s2\<lparr>m_context := c\<rparr>))
                     | None \<Rightarrow> Inr (CALI_EINV, s2))))))"
    using assms(2,3,5)
    by (simp add: end_impl_def Let_def assms(4) lf rlock_free nodes_at_def w
        split: option.split)
  show ?thesis
  proof (cases "nearest_carrying s (attr_id attr) (slot_raw e)")
    case None
    then show ?thesis by (simp add: *)
  next
    case (Some q)
    from nearest_carrying_Some [OF ri pi assms(5) valid Some]
    obtain k where k: "k < length (m_nodes s)" "q = Idx k"
      and par: "node_parent (m_nodes s ! k) = Some Root \<or>
            (\<exists>j < k. node_parent (m_nodes s ! k) = Some (Idx j))"
      by blast
    from par show ?thesis
    proof
      assume "node_parent (m_nodes s ! k) = Some Root"
      with Some k show ?thesis
        by (simp add: * deref_def unlock_rlocked same Context_unset_def node_at_def)
    next
      assume "\<exists>j < k. node_parent (m_nodes s ! k) = Some (Idx j)"
      then obtain j where j: "j < k" "node_parent (m_nodes s ! k) = Some (Idx j)"
        by blast
      with k have jn: "j < length (m_nodes s)" by simp
      with ii have "node_id (m_nodes s ! j) = j" by (simp add: ids_inv_def)
      with Some k j jn show ?thesis
        by (simp add: * deref_def unlock_rlocked same Context_set_def node_at_def)
    qed
  qed
qed

subsection \<open>Every call keeps the invariant\<close>

lemma tree_inv_context [simp]: "tree_inv (s\<lparr>m_context := c\<rparr>) = tree_inv s"
  by (simp add: tree_inv_def ids_inv_def root_inv_def parents_inv_def children_inv_def nodup_inv_def)

lemma tree_inv_env_cb [simp]: "tree_inv (s\<lparr>m_env_cb := f\<rparr>) = tree_inv s"
  by (simp add: tree_inv_def ids_inv_def root_inv_def parents_inv_def children_inv_def nodup_inv_def)

lemma tree_inv_attributes [simp]:
  "tree_inv (s\<lparr>m_attribute_lock := l, m_attributes := as\<rparr>) = tree_inv s"
  by (simp add: tree_inv_def ids_inv_def root_inv_def parents_inv_def children_inv_def nodup_inv_def)

lemma registry_inv_context [simp]: "registry_inv (s\<lparr>m_context := c\<rparr>) = registry_inv s"
  by (simp add: registry_inv_def)

lemma registry_inv_env_cb [simp]: "registry_inv (s\<lparr>m_env_cb := f\<rparr>) = registry_inv s"
  by (simp add: registry_inv_def)

lemma registry_inv_add_child [simp]: "registry_inv (add_child s p a d) = registry_inv s"
  by (simp add: registry_inv_def)

lemma chain_inv_context [simp]: "chain_inv (s\<lparr>m_context := c\<rparr>) = chain_inv s"
  by (simp add: chain_inv_def)

lemma chain_inv_env_cb [simp]: "chain_inv (s\<lparr>m_env_cb := f\<rparr>) = chain_inv s"
  by (simp add: chain_inv_def)

lemma slot_ok_context [simp]: "slot_ok (s\<lparr>m_context := c\<rparr>) key e = slot_ok s key e"
  by (cases e) simp_all

lemma slot_ok_env_cb [simp]: "slot_ok (s\<lparr>m_env_cb := f\<rparr>) key e = slot_ok s key e"
  by (cases e) simp_all

lemma slot_ok_add_child: "slot_ok s key e \<Longrightarrow> slot_ok (add_child s p a d) key e"
  by (cases e) simp_all

lemma ctx_inv_env_cb [simp]: "ctx_inv (s\<lparr>m_env_cb := f\<rparr>) = ctx_inv s"
  by (simp add: ctx_inv_def)

lemma ctx_inv_add_child: "ctx_inv s \<Longrightarrow> ctx_inv (add_child s p a d)"
  by (simp add: ctx_inv_def slot_ok_add_child)

lemma ctx_inv_set:
  assumes "ctx_inv s" and "slot_ok s key v"
    and "g \<longrightarrow> key < length (m_attributes s) \<and> is_global (m_attributes s ! key)"
  shows "ctx_inv (s\<lparr>m_context := snd (Context_set (m_context s) env key v g)\<rparr>)"
  using assms by (auto simp: ctx_inv_def Context_set_def)

lemma ctx_inv_unset:
  assumes "ctx_inv s"
  shows "ctx_inv (s\<lparr>m_context := snd (Context_unset (m_context s) env key)\<rparr>)"
  using assms by (auto simp: ctx_inv_def Context_unset_def)

lemma ctx_inv_get:
  "ctx_inv s \<Longrightarrow> Context_get (m_context s) env key = Some e \<Longrightarrow> slot_ok s key e"
  by (auto simp: ctx_inv_def Context_get_def split: option.splits)

lemma registry_lookup:
  assumes "registry_inv s" and "attr \<in> set (m_attributes s)"
  shows "attr_id attr < length (m_attributes s) \<and> m_attributes s ! attr_id attr = attr"
proof -
  from assms(2) obtain i where "i < length (m_attributes s)" "m_attributes s ! i = attr"
    by (auto simp: in_set_conv_nth)
  with assms(1) show ?thesis by (auto simp: registry_inv_def)
qed

lemma registered_valid:
  assumes "registry_inv s" and "registered s attr" and "\<not> is_invalid attr"
  shows "attr_id attr < length (m_attributes s) \<and> m_attributes s ! attr_id attr = attr"
proof -
  from assms(2,3) have "attr \<in> set (m_attributes s)"
    by (auto simp: registered_def is_invalid_def)
  from registry_lookup [OF assms(1) this] show ?thesis .
qed

lemma chain_inv_add_child:
  assumes "chain_inv s" and "parents_inv s" and "valid_ptr s p" and "a < length (m_attributes s)"
    and "\<not> store_as_value (m_attributes s ! a) \<longrightarrow>
           p = Root \<or> (\<exists>j < length (m_nodes s). p = Idx j \<and> node_attribute (m_nodes s ! j) = a)"
  shows "chain_inv (add_child s p a d)"
proof -
  have "node_attribute (m_nodes (add_child s p a d) ! i) < length (m_attributes s) \<and>
        (\<not> store_as_value (m_attributes s ! node_attribute (m_nodes (add_child s p a d) ! i)) \<longrightarrow>
           node_parent (m_nodes (add_child s p a d) ! i) = Some Root \<or>
           (\<exists>j. node_parent (m_nodes (add_child s p a d) ! i) = Some (Idx j) \<and>
                node_attribute (m_nodes (add_child s p a d) ! j) =
                node_attribute (m_nodes (add_child s p a d) ! i)))"
    if i: "i < Suc (length (m_nodes s))" for i
  proof (cases "i < length (m_nodes s)")
    case True
    from assms(1) True
    have old: "node_attribute (m_nodes s ! i) < length (m_attributes s)"
      "\<not> store_as_value (m_attributes s ! node_attribute (m_nodes s ! i)) \<Longrightarrow>
         node_parent (m_nodes s ! i) = Some Root \<or>
         (\<exists>j. node_parent (m_nodes s ! i) = Some (Idx j) \<and>
              node_attribute (m_nodes s ! j) = node_attribute (m_nodes s ! i))"
      by (simp_all add: chain_inv_def)
    show ?thesis
    proof (intro conjI impI)
      show "node_attribute (m_nodes (add_child s p a d) ! i) < length (m_attributes s)"
        using True old(1) by simp
    next
      assume "\<not> store_as_value (m_attributes s ! node_attribute (m_nodes (add_child s p a d) ! i))"
      with True have "\<not> store_as_value (m_attributes s ! node_attribute (m_nodes s ! i))"
        by simp
      from old(2) [OF this]
      show "node_parent (m_nodes (add_child s p a d) ! i) = Some Root \<or>
           (\<exists>j. node_parent (m_nodes (add_child s p a d) ! i) = Some (Idx j) \<and>
                node_attribute (m_nodes (add_child s p a d) ! j) =
                node_attribute (m_nodes (add_child s p a d) ! i))"
      proof
        assume "node_parent (m_nodes s ! i) = Some Root"
        with True show ?thesis by simp
      next
        assume "\<exists>j. node_parent (m_nodes s ! i) = Some (Idx j) \<and>
              node_attribute (m_nodes s ! j) = node_attribute (m_nodes s ! i)"
        then obtain j where j: "node_parent (m_nodes s ! i) = Some (Idx j)"
          "node_attribute (m_nodes s ! j) = node_attribute (m_nodes s ! i)"
          by blast
        from parents_inv_below [OF assms(2) True j(1)] True have "j < length (m_nodes s)"
          by simp
        with True j show ?thesis by simp
      qed
    qed
  next
    case False
    with i have e: "i = length (m_nodes s)" by simp
    show ?thesis
      using assms(4,5) by (auto simp: e)
  qed
  then show ?thesis by (simp add: chain_inv_def)
qed

lemma begin_out_of_range:
  assumes "tree_inv s" and "\<not> is_invalid attr" and "\<not> (store_as_value attr \<and> length d = 8)"
    and "\<not> valid_ptr s (begin_parent s env attr)"
  shows "begin_impl s env attr d = Inl OutOfBounds"
proof -
  from assms(1) have lf: "m_nodelock s = lock_free" by (simp add: tree_inv_def)
  from assms(3) have nv: "(store_as_value attr \<and> length d = 8) = False" by simp
  from assms(4) obtain e where "Context_get (m_context s) env (attr_id attr) = Some e"
    "\<not> slot_raw e < length (m_nodes s)"
    by (auto simp: begin_parent_def split: option.splits)
  then show ?thesis
    using assms(2) by (simp add: begin_impl_def Let_def lf rlock_free nv nodes_at_def)
qed

lemma set_out_of_range:
  assumes "tree_inv s" and "\<not> is_invalid attr" and "\<not> (store_as_value attr \<and> length d = 8)"
    and "Context_get (m_context s) env (attr_id attr) = Some e"
    and "\<not> slot_raw e < length (m_nodes s)"
  shows "set_impl s env attr d = Inl OutOfBounds"
proof -
  from assms(1) have lf: "m_nodelock s = lock_free" by (simp add: tree_inv_def)
  from assms(3) have nv: "(store_as_value attr \<and> length d = 8) = False" by simp
  show ?thesis
    using assms(2,4,5) by (simp add: set_impl_def Let_def lf rlock_free nv nodes_at_def)
qed

lemma end_out_of_range:
  assumes "tree_inv s" and "\<not> is_invalid attr" and "\<not> store_as_value attr"
    and "Context_get (m_context s) env (attr_id attr) = Some e"
    and "\<not> slot_raw e < length (m_nodes s)"
  shows "end_impl s env attr = Some (Inl OutOfBounds)"
proof -
  from assms(1) have lf: "m_nodelock s = lock_free" by (simp add: tree_inv_def)
  show ?thesis
    using assms(2-5) by (simp add: end_impl_def Let_def lf rlock_free nodes_at_def)
qed

lemma state_inv_child:
  assumes inv: "state_inv s" and key: "attr_id attr < length (m_attributes s)"
    and reg: "m_attributes s ! attr_id attr = attr" and vp: "valid_ptr s p"
    and par: "\<not> store_as_value attr \<longrightarrow>
           p = Root \<or> (\<exists>j < length (m_nodes s). p = Idx j \<and> node_attribute (m_nodes s ! j) = attr_id attr)"
  shows "state_inv
     (case child_with s p (attr_id attr) d of
        Some c \<Rightarrow> s\<lparr>m_context := snd (Context_set (m_context s) env (attr_id attr)
                                      (Reference (node_id (m_nodes s ! c))) (is_global attr))\<rparr>
      | None \<Rightarrow> (add_child s p (attr_id attr) d)
                  \<lparr>m_context := snd (Context_set (m_context s) env (attr_id attr)
                                      (Reference (length (m_nodes s))) (is_global attr))\<rparr>)"
proof -
  from inv have ti: "tree_inv s" and ri: "registry_inv s" and ci: "ctx_inv s" and ch: "chain_inv s"
    by (simp_all add: state_inv_def)
  from ti have chi: "children_inv s" and ii: "ids_inv s" and pi: "parents_inv s"
    by (simp_all add: tree_inv_def)
  have g: "is_global attr \<longrightarrow>
      attr_id attr < length (m_attributes s) \<and> is_global (m_attributes s ! attr_id attr)"
    using key reg by simp
  show ?thesis
  proof (cases "child_with s p (attr_id attr) d")
    case None
    let ?t = "add_child s p (attr_id attr) d"
    from child_with_None [OF chi vp None]
    have ti': "tree_inv ?t"
      by (rule add_child_tree_inv [OF ti vp])
    have ch': "chain_inv ?t"
      using par reg by (intro chain_inv_add_child [OF ch pi vp key]) simp
    have sl: "slot_ok ?t (attr_id attr) (Reference (length (m_nodes s)))"
      by simp
    have g': "is_global attr \<longrightarrow>
      attr_id attr < length (m_attributes ?t) \<and> is_global (m_attributes ?t ! attr_id attr)"
      using g by simp
    from ctx_inv_set [OF ctx_inv_add_child [OF ci] sl g', of env]
    have "ctx_inv (?t\<lparr>m_context := snd (Context_set (m_context s) env (attr_id attr)
                                      (Reference (length (m_nodes s))) (is_global attr))\<rparr>)"
      by simp
    with ti' ch' ri None show ?thesis
      by (simp add: state_inv_def)
  next
    case (Some c)
    from child_with_Some [OF chi vp Some]
    have c: "c < length (m_nodes s)" "node_attribute (m_nodes s ! c) = attr_id attr"
      by (simp_all add: equals_def)
    with ii have id: "node_id (m_nodes s ! c) = c" by (simp add: ids_inv_def)
    from c have sl: "slot_ok s (attr_id attr) (Reference c)" by simp
    from ctx_inv_set [OF ci sl g, of env] ti ri ch Some show ?thesis
      by (simp add: state_inv_def id)
  qed
qed

lemma begin_parent_carries:
  assumes "state_inv s" and "attr_id attr < length (m_attributes s)"
    and "m_attributes s ! attr_id attr = attr" and "\<not> store_as_value attr"
  shows "begin_parent s env attr = Root \<or>
         (\<exists>j < length (m_nodes s). begin_parent s env attr = Idx j \<and>
              node_attribute (m_nodes s ! j) = attr_id attr)"
proof (cases "Context_get (m_context s) env (attr_id attr)")
  case None
  then show ?thesis by (simp add: begin_parent_def)
next
  case (Some e)
  from assms(1) have "ctx_inv s" by (simp add: state_inv_def)
  from ctx_inv_get [OF this Some] assms(3,4) Some show ?thesis
    by (cases e) (simp_all add: begin_parent_def)
qed

lemma begin_preserves:
  assumes inv: "state_inv s" and reg: "registered s attr"
    and b: "begin_impl s env attr d = Inr (r, s')"
  shows "state_inv s'"
proof (cases "is_invalid attr")
  case True
  with b inv show ?thesis by (simp add: begin_impl_def)
next
  case False
  from inv have ti: "tree_inv s" and ri: "registry_inv s" and ci: "ctx_inv s" and ch: "chain_inv s"
    by (simp_all add: state_inv_def)
  from registered_valid [OF ri reg False]
  have key: "attr_id attr < length (m_attributes s)" and at: "m_attributes s ! attr_id attr = attr"
    by simp_all
  show ?thesis
  proof (cases "store_as_value attr \<and> length d = 8")
    case True
    with False b have s': "s' = s\<lparr>m_context := snd (Context_set (m_context s) env (attr_id attr)
                                      (Inline (le64 d)) (is_global attr))\<rparr>"
      by (auto simp: begin_impl_def Let_def Context_set_def split: if_splits)
    have sl: "slot_ok s (attr_id attr) (Inline (le64 d))"
      using key at True by simp
    have g: "is_global attr \<longrightarrow>
      attr_id attr < length (m_attributes s) \<and> is_global (m_attributes s ! attr_id attr)"
      using key at by simp
    from ctx_inv_set [OF ci sl g, of env] ti ri ch show ?thesis
      by (simp add: s' state_inv_def)
  next
    case nv: False
    show ?thesis
    proof (cases "valid_ptr s (begin_parent s env attr)")
      case False
      from begin_out_of_range [OF ti \<open>\<not> is_invalid attr\<close> nv False] b show ?thesis by simp
    next
      case True
      have par: "\<not> store_as_value attr \<longrightarrow>
           begin_parent s env attr = Root \<or>
           (\<exists>j < length (m_nodes s). begin_parent s env attr = Idx j \<and>
                node_attribute (m_nodes s ! j) = attr_id attr)"
        using begin_parent_carries [OF inv key at] by blast
      from state_inv_child [OF inv key at True par, where d = d and env = env]
           begin_impl_eq [OF ti \<open>\<not> is_invalid attr\<close> nv True] b
      show ?thesis by (auto split: option.splits)
    qed
  qed
qed

lemma set_parent_carries:
  assumes "state_inv s" and "attr_id attr < length (m_attributes s)"
    and "m_attributes s ! attr_id attr = attr" and "\<not> store_as_value attr"
  shows "set_parent s env attr = Root \<or>
         (\<exists>j < length (m_nodes s). set_parent s env attr = Idx j \<and>
              node_attribute (m_nodes s ! j) = attr_id attr)"
proof (cases "Context_get (m_context s) env (attr_id attr)")
  case None
  then show ?thesis by (simp add: set_parent_def)
next
  case (Some e)
  from assms(1) have ci: "ctx_inv s" and ch: "chain_inv s" and ti: "tree_inv s"
    by (simp_all add: state_inv_def)
  from ti have pi: "parents_inv s" by (simp add: tree_inv_def)
  from ctx_inv_get [OF ci Some] assms(3,4) obtain i where e: "e = Reference i"
    and i: "i < length (m_nodes s)" "node_attribute (m_nodes s ! i) = attr_id attr"
    by (cases e) simp_all
  from ch i assms(3,4)
  have "node_parent (m_nodes s ! i) = Some Root \<or>
        (\<exists>j. node_parent (m_nodes s ! i) = Some (Idx j) \<and>
             node_attribute (m_nodes s ! j) = attr_id attr)"
    by (auto simp: chain_inv_def)
  then show ?thesis
  proof
    assume "node_parent (m_nodes s ! i) = Some Root"
    with Some e show ?thesis by (simp add: set_parent_def)
  next
    assume "\<exists>j. node_parent (m_nodes s ! i) = Some (Idx j) \<and>
             node_attribute (m_nodes s ! j) = attr_id attr"
    then obtain j where j: "node_parent (m_nodes s ! i) = Some (Idx j)"
      "node_attribute (m_nodes s ! j) = attr_id attr"
      by blast
    from parents_inv_below [OF pi i(1) j(1)] i(1) have "j < length (m_nodes s)" by simp
    with Some e j show ?thesis by (simp add: set_parent_def)
  qed
qed

lemma set_preserves:
  assumes inv: "state_inv s" and reg: "registered s attr"
    and b: "set_impl s env attr d = Inr (r, s')"
  shows "state_inv s'"
proof (cases "is_invalid attr")
  case True
  with b inv show ?thesis by (simp add: set_impl_def)
next
  case False
  from inv have ti: "tree_inv s" and ri: "registry_inv s" and ci: "ctx_inv s" and ch: "chain_inv s"
    by (simp_all add: state_inv_def)
  from registered_valid [OF ri reg False]
  have key: "attr_id attr < length (m_attributes s)" and at: "m_attributes s ! attr_id attr = attr"
    by simp_all
  show ?thesis
  proof (cases "store_as_value attr \<and> length d = 8")
    case True
    with False b have s': "s' = s\<lparr>m_context := snd (Context_set (m_context s) env (attr_id attr)
                                      (Inline (le64 d)) (is_global attr))\<rparr>"
      by (auto simp: set_impl_def Let_def Context_set_def split: if_splits)
    have sl: "slot_ok s (attr_id attr) (Inline (le64 d))"
      using key at True by simp
    have g: "is_global attr \<longrightarrow>
      attr_id attr < length (m_attributes s) \<and> is_global (m_attributes s ! attr_id attr)"
      using key at by simp
    from ctx_inv_set [OF ci sl g, of env] ti ri ch show ?thesis
      by (simp add: s' state_inv_def)
  next
    case nv: False
    show ?thesis
    proof (cases "\<forall>e. Context_get (m_context s) env (attr_id attr) = Some e \<longrightarrow>
                      slot_raw e < length (m_nodes s)")
      case False
      then obtain e where "Context_get (m_context s) env (attr_id attr) = Some e"
        "\<not> slot_raw e < length (m_nodes s)"
        by blast
      from set_out_of_range [OF ti \<open>\<not> is_invalid attr\<close> nv this] b show ?thesis by simp
    next
      case True
      have par: "\<not> store_as_value attr \<longrightarrow>
           set_parent s env attr = Root \<or>
           (\<exists>j < length (m_nodes s). set_parent s env attr = Idx j \<and>
                node_attribute (m_nodes s ! j) = attr_id attr)"
        using set_parent_carries [OF inv key at] by blast
      from state_inv_child [OF inv key at valid_set_parent [OF ti True] par, where d = d and env = env]
           set_impl_eq [OF ti \<open>\<not> is_invalid attr\<close> nv True] b
      show ?thesis by (auto split: option.splits)
    qed
  qed
qed

lemma nearest_carrying_self:
  "node_attribute (m_nodes s ! i) = a \<Longrightarrow> nearest_carrying s a i = Some (Idx i)"
  by (simp add: nearest_carrying_def parent_chain.simps [of s i] carries_def node_at_def)

lemma end_impl_reachable:
  assumes inv: "state_inv s" and reg: "registered s attr" and valid: "\<not> is_invalid attr"
    and nv: "\<not> store_as_value attr"
  shows "end_impl s env attr =
           (case Context_get (m_context s) env (attr_id attr) of
              None \<Rightarrow> Some (Inr (CALI_EINV, s))
            | Some e \<Rightarrow>
                (case node_parent (m_nodes s ! slot_raw e) of
                   Some (Idx j) \<Rightarrow>
                     Some (Inr (CALI_SUCCESS,
                       s\<lparr>m_context := snd (Context_set (m_context s) env (attr_id attr)
                                             (Reference j) False)\<rparr>))
                 | _ \<Rightarrow>
                     Some (Inr (fst (Context_unset (m_context s) env (attr_id attr)),
                       s\<lparr>m_context := snd (Context_unset (m_context s) env (attr_id attr))\<rparr>))))"
proof (cases "Context_get (m_context s) env (attr_id attr)")
  case None
  with valid nv show ?thesis by (simp add: end_impl_def)
next
  case (Some e)
  from inv have ti: "tree_inv s" and ri: "registry_inv s" and ci: "ctx_inv s" and ch: "chain_inv s"
    by (simp_all add: state_inv_def)
  from registered_valid [OF ri reg valid]
  have key: "attr_id attr < length (m_attributes s)" and at: "m_attributes s ! attr_id attr = attr"
    by simp_all
  from ctx_inv_get [OF ci Some] at nv obtain i where e: "e = Reference i"
    and i: "i < length (m_nodes s)" "node_attribute (m_nodes s ! i) = attr_id attr"
    by (cases e) simp_all
  from ti have "parents_inv s" by (simp add: tree_inv_def)
  with i have "node_parent (m_nodes s ! i) = Some Root \<or>
     (\<exists>j < i. node_parent (m_nodes s ! i) = Some (Idx j))"
    by (simp add: parents_inv_def)
  with end_impl_eq [OF ti valid nv Some] e i Some show ?thesis
    by (auto simp: nearest_carrying_self node_at_def)
qed

lemma end_preserves:
  assumes inv: "state_inv s" and reg: "registered s attr"
    and b: "end_impl s env attr = Some (Inr (r, s'))"
  shows "state_inv s'"
proof (cases "is_invalid attr")
  case True
  with b inv show ?thesis by (simp add: end_impl_def)
next
  case False
  from inv have ti: "tree_inv s" and ri: "registry_inv s" and ci: "ctx_inv s" and ch: "chain_inv s"
    by (simp_all add: state_inv_def)
  from registered_valid [OF ri reg False]
  have key: "attr_id attr < length (m_attributes s)" and at: "m_attributes s ! attr_id attr = attr"
    by simp_all
  show ?thesis
  proof (cases "store_as_value attr")
    case True
    with False b have s': "s' = s\<lparr>m_context := snd (Context_unset (m_context s) env (attr_id attr))\<rparr>"
      by (auto simp: end_impl_def Let_def Context_unset_def)
    from ctx_inv_unset [OF ci, of env] ti ri ch show ?thesis
      by (simp add: s' state_inv_def)
  next
    case nv: False
    note eq = end_impl_reachable [OF inv reg False nv, of env]
    show ?thesis
    proof (cases "Context_get (m_context s) env (attr_id attr)")
      case None
      with eq b inv show ?thesis by simp
    next
      case (Some e)
      from ctx_inv_get [OF ci Some] at nv obtain i where e: "e = Reference i"
        and i: "i < length (m_nodes s)" "node_attribute (m_nodes s ! i) = attr_id attr"
        by (cases e) simp_all
      show ?thesis
      proof (cases "\<exists>j. node_parent (m_nodes s ! i) = Some (Idx j)")
        case False
        with eq b Some e
        have s': "s' = s\<lparr>m_context := snd (Context_unset (m_context s) env (attr_id attr))\<rparr>"
          by (auto split: option.splits node_ptr.splits)
        from ctx_inv_unset [OF ci, of env] ti ri ch show ?thesis
          by (simp add: s' state_inv_def)
      next
        case True
        then obtain j where j: "node_parent (m_nodes s ! i) = Some (Idx j)" by blast
        with eq b Some e
        have s': "s' = s\<lparr>m_context := snd (Context_set (m_context s) env (attr_id attr)
                                             (Reference j) False)\<rparr>"
          by simp
        from ti have pi: "parents_inv s" by (simp add: tree_inv_def)
        from parents_inv_below [OF pi i(1) j] i(1) have jn: "j < length (m_nodes s)" by simp
        from ch i at nv j have "node_attribute (m_nodes s ! j) = attr_id attr"
          by (auto simp: chain_inv_def)
        with jn have sl: "slot_ok s (attr_id attr) (Reference j)" by simp
        from ctx_inv_set [OF ci sl, of False env] ti ri ch show ?thesis
          by (simp add: s' state_inv_def)
      qed
    qed
  qed
qed

lemma state_inv_new: "state_inv CaliperImpl_new"
  by (simp add: state_inv_def tree_inv_def ids_inv_def root_inv_def parents_inv_def
      children_inv_def nodup_inv_def registry_inv_def ctx_inv_def chain_inv_def
      CaliperImpl_new_def Node_new_def Context_new_def Attribute_invalid_def)

lemma create_attribute_eq:
  assumes "m_attribute_lock s = lock_free"
  shows "create_attribute s name v g =
           Inr (fst (AttributeStore_create (m_attributes s) name v g),
                s\<lparr>m_attribute_lock := lock_free,
                  m_attributes := snd (AttributeStore_create (m_attributes s) name v g)\<rparr>)"
  using assms by (simp add: create_attribute_def lock_defs Let_def split: prod.splits)

lemma AttributeStore_create_cases:
  "snd (AttributeStore_create attrs name v g) = attrs \<or>
   snd (AttributeStore_create attrs name v g) =
     attrs @ [\<lparr>attr_id = length attrs, attr_name = name, store_as_value = v, is_global = g\<rparr>]"
  by (simp add: AttributeStore_create_def Let_def split: option.splits)

lemma slot_ok_attributes:
  "slot_ok s key e \<Longrightarrow> slot_ok (s\<lparr>m_attribute_lock := l, m_attributes := m_attributes s @ xs\<rparr>) key e"
  by (cases e) (simp_all add: nth_append)

lemma ctx_inv_attributes:
  assumes "ctx_inv s"
  shows "ctx_inv (s\<lparr>m_attribute_lock := l, m_attributes := m_attributes s @ xs\<rparr>)"
proof -
  let ?t = "s\<lparr>m_attribute_lock := l, m_attributes := m_attributes s @ xs\<rparr>"
  have a: "slot_ok ?t key e" if "ctx_env (m_context s) env key = Some e" for env key e
    using assms that by (intro slot_ok_attributes) (simp add: ctx_inv_def)
  have b: "slot_ok ?t key e \<and> key < length (m_attributes s @ xs) \<and>
           is_global ((m_attributes s @ xs) ! key)"
    if "ctx_global (m_context s) key = Some e" for key e
  proof -
    from assms that have "slot_ok s key e" "key < length (m_attributes s)"
      "is_global (m_attributes s ! key)"
      by (simp_all add: ctx_inv_def)
    then show ?thesis by (simp add: slot_ok_attributes nth_append)
  qed
  from a b show ?thesis by (simp add: ctx_inv_def)
qed

lemma chain_inv_attributes:
  assumes "chain_inv s"
  shows "chain_inv (s\<lparr>m_attribute_lock := l, m_attributes := m_attributes s @ xs\<rparr>)"
proof -
  have "node_attribute (m_nodes s ! i) < length (m_attributes s @ xs) \<and>
        (\<not> store_as_value ((m_attributes s @ xs) ! node_attribute (m_nodes s ! i)) \<longrightarrow>
           node_parent (m_nodes s ! i) = Some Root \<or>
           (\<exists>j. node_parent (m_nodes s ! i) = Some (Idx j) \<and>
                node_attribute (m_nodes s ! j) = node_attribute (m_nodes s ! i)))"
    if "i < length (m_nodes s)" for i
  proof -
    from assms that have a: "node_attribute (m_nodes s ! i) < length (m_attributes s)"
      and b: "\<not> store_as_value (m_attributes s ! node_attribute (m_nodes s ! i)) \<longrightarrow>
           node_parent (m_nodes s ! i) = Some Root \<or>
           (\<exists>j. node_parent (m_nodes s ! i) = Some (Idx j) \<and>
                node_attribute (m_nodes s ! j) = node_attribute (m_nodes s ! i))"
      by (simp_all add: chain_inv_def)
    from a b show ?thesis by (simp add: nth_append)
  qed
  then show ?thesis by (simp add: chain_inv_def)
qed

lemma registry_inv_attributes:
  assumes "registry_inv s" and "\<forall>i < length xs. attr_id (xs ! i) = length (m_attributes s) + i"
  shows "registry_inv (s\<lparr>m_attribute_lock := lock_free, m_attributes := m_attributes s @ xs\<rparr>)"
  using assms by (auto simp: registry_inv_def nth_append)

lemma state_inv_attributes:
  assumes "state_inv s" and "\<forall>i < length xs. attr_id (xs ! i) = length (m_attributes s) + i"
  shows "state_inv (s\<lparr>m_attribute_lock := lock_free, m_attributes := m_attributes s @ xs\<rparr>)"
  using assms
  by (simp add: state_inv_def ctx_inv_attributes chain_inv_attributes registry_inv_attributes)

lemma create_attribute_preserves:
  assumes "state_inv s" and "create_attribute s name v g = Inr (a, s')"
  shows "state_inv s'"
proof -
  from assms(1) have "m_attribute_lock s = lock_free"
    by (simp add: state_inv_def registry_inv_def)
  from create_attribute_eq [OF this] assms(2)
  have s': "s' = s\<lparr>m_attribute_lock := lock_free,
                  m_attributes := snd (AttributeStore_create (m_attributes s) name v g)\<rparr>"
    by simp
  from AttributeStore_create_cases [of "m_attributes s" name v g] show ?thesis
  proof
    assume "snd (AttributeStore_create (m_attributes s) name v g) = m_attributes s"
    with state_inv_attributes [OF assms(1), of "[]"] show ?thesis
      by (simp add: s')
  next
    assume "snd (AttributeStore_create (m_attributes s) name v g) =
      m_attributes s @ [\<lparr>attr_id = length (m_attributes s), attr_name = name,
                          store_as_value = v, is_global = g\<rparr>]"
    with state_inv_attributes [OF assms(1),
        of "[\<lparr>attr_id = length (m_attributes s), attr_name = name, store_as_value = v, is_global = g\<rparr>]"]
    show ?thesis
      by (simp add: s')
  qed
qed

lemma get_impl_eq:
  assumes "m_nodelock s = lock_free"
  shows "get_impl s i =
           (if i > length (m_nodes s) then Inr (None, s)
            else if i < length (m_nodes s) then Inr (Some (m_nodes s ! i), s)
            else Inl OutOfBounds)"
  using assms nodelock_idem [OF assms]
  by (simp add: get_impl_def rlock_free unlock_rlocked nodes_at_def deref_def)

lemma exec_preserves:
  assumes "state_inv s" and "allowed s x" and "exec s x = Some (Inr s')"
  shows "state_inv s'"
proof (cases x)
  case (CreateAttribute name v g)
  with assms(3) obtain a where "create_attribute s name v g = Inr (a, s')"
    by (auto simp: and_then_def split: sum.splits)
  from create_attribute_preserves [OF assms(1) this] show ?thesis .
next
  case (Begin env attr d)
  with assms(3) obtain r where "begin_impl s env attr d = Inr (r, s')"
    by (auto simp: and_then_def split: sum.splits)
  from begin_preserves [OF assms(1) _ this] assms(2) Begin show ?thesis by simp
next
  case (End env attr)
  with assms(3) obtain r where "end_impl s env attr = Some (Inr (r, s'))"
    by (auto simp: and_then_def split: sum.splits option.splits)
  from end_preserves [OF assms(1) _ this] assms(2) End show ?thesis by simp
next
  case (Set env attr d)
  with assms(3) obtain r where "set_impl s env attr d = Inr (r, s')"
    by (auto simp: and_then_def split: sum.splits)
  from set_preserves [OF assms(1) _ this] assms(2) Set show ?thesis by simp
next
  case (Get i)
  from assms(1) have "m_nodelock s = lock_free"
    by (simp add: state_inv_def tree_inv_def)
  from get_impl_eq [OF this, of i] Get assms(1,3) show ?thesis
    by (auto split: if_splits)
next
  case (SetEnvironmentCallback cb)
  with assms(1,3) show ?thesis
    by (auto simp: set_environment_callback_def state_inv_def)
qed

lemma run_preserves:
  "state_inv s \<Longrightarrow> run s ops = Some s' \<Longrightarrow> state_inv s'"
proof (induction ops arbitrary: s)
  case Nil
  then show ?case by simp
next
  case (Cons x xs)
  from run_Cons_Some [OF Cons.prems(2)] obtain s1
    where a: "allowed s x" and e: "exec s x = Some (Inr s1)" and r: "run s1 xs = Some s'"
    by blast
  from Cons.IH [OF exec_preserves [OF Cons.prems(1) a e] r] show ?case .
qed

lemma reachable_inv: "reachable s \<Longrightarrow> state_inv s"
  unfolding reachable_def using run_preserves [OF state_inv_new] by blast

section \<open>Retrieval: \<open>get\<close>\<close>

lemma get_at_size:
  "m_nodelock s = lock_free \<Longrightarrow> get_impl s (length (m_nodes s)) = Inl OutOfBounds"
  by (simp add: get_impl_def lock_defs nodes_at_def)

text \<open>
  C1 asks that \<open>get(id)\<close> returns null for every \<open>id\<close> from the number of nodes on, and
  never reads the vector out of range. The guard of the source is \<open>id > m_nodes.size()\<close>, so
  the id equal to the size passes it: on the empty store \<open>get(0)\<close> reads \<open>m_nodes[0]\<close>, which
  is past the end.
\<close>

theorem get_at_size_out_of_bounds: "get_impl CaliperImpl_new 0 = Inl OutOfBounds"
  by (simp add: eval_defs)

section \<open>Store-as-value attributes\<close>

text \<open>
  C2 as stated fails: \<open>begin\<close> on a store-as-value attribute with a payload of one byte
  takes the node branch, and the entry it leaves is a reference to node 0.
\<close>

theorem store_as_value_other_size_counterexample:
  "map_option (\<lambda>s. Context_get (m_context s) 0 1)
     (run CaliperImpl_new
        [CreateAttribute ''phase'' False False, CreateAttribute ''count'' True False,
         Begin 0 count_attr [1]]) =
   Some (Some (Reference 0))"
  by (simp add: eval_defs count_attr_def)

text \<open>
  C2, amended: for a valid store-as-value attribute, \<open>begin\<close> and \<open>set\<close> succeed and write an
  inline scalar (the payload read as a 64-bit value) when the payload is 8 bytes long; for
  every other payload length, whenever they return, the entry they wrote is a node
  reference.
\<close>

theorem store_as_value_entries:
  assumes "store_as_value attr" and "\<not> is_invalid attr"
  shows "(length data = 8 \<longrightarrow>
            begin_impl s env attr data =
              Inr (CALI_SUCCESS, s\<lparr>m_context := snd (Context_set (m_context s) env (attr_id attr)
                                                     (Inline (le64 data)) (is_global attr))\<rparr>) \<and>
            set_impl s env attr data =
              Inr (CALI_SUCCESS, s\<lparr>m_context := snd (Context_set (m_context s) env (attr_id attr)
                                                     (Inline (le64 data)) (is_global attr))\<rparr>) \<and>
            entry_written (s\<lparr>m_context := snd (Context_set (m_context s) env (attr_id attr)
                                                (Inline (le64 data)) (is_global attr))\<rparr>) env attr =
              Some (Inline (le64 data))) \<and>
         (length data \<noteq> 8 \<longrightarrow>
            (\<forall>r s'. begin_impl s env attr data = Inr (r, s') \<or> set_impl s env attr data = Inr (r, s') \<longrightarrow>
               (\<exists>n. entry_written s' env attr = Some (Reference n))))"
  using assms
  by (auto simp: begin_impl_def set_impl_def Let_def Context_set_def entry_written_def and_then_def
       split: sum.splits prod.splits option.splits if_splits)

theorem store_as_value_entries_witness:
  "store_as_value count_attr \<and> \<not> is_invalid count_attr \<and>
   begin_impl CaliperImpl_new 0 count_attr [7, 0, 0, 0, 0, 0, 0, 0] =
     Inr (CALI_SUCCESS, CaliperImpl_new\<lparr>m_context :=
            snd (Context_set (m_context CaliperImpl_new) 0 1 (Inline 7) False)\<rparr>) \<and>
   (\<exists>r s' n. begin_impl CaliperImpl_new 0 count_attr [7] = Inr (r, s') \<and>
        entry_written s' 0 count_attr = Some (Reference n))"
proof -
  have a: "store_as_value count_attr" and b: "\<not> is_invalid count_attr"
    by (simp_all add: count_attr_def is_invalid_def Attribute_invalid_def CALI_INV_ID_def)
  have "\<exists>r s'. begin_impl CaliperImpl_new 0 count_attr [7] = Inr (r, s')"
    by (simp add: eval_defs count_attr_def)
  then obtain r s' where c: "begin_impl CaliperImpl_new 0 count_attr [7] = Inr (r, s')"
    by blast
  have l: "le64 [7, 0, 0, 0, 0, 0, 0, 0] = 7"
    by (simp add: le64_def)
  from store_as_value_entries [OF a b, of "[7]" CaliperImpl_new 0] c
  have d: "\<exists>n. entry_written s' 0 count_attr = Some (Reference n)"
    by simp
  from store_as_value_entries [OF a b, of "[7, 0, 0, 0, 0, 0, 0, 0]" CaliperImpl_new 0]
  have e: "begin_impl CaliperImpl_new 0 count_attr [7, 0, 0, 0, 0, 0, 0, 0] =
     Inr (CALI_SUCCESS, CaliperImpl_new\<lparr>m_context :=
            snd (Context_set (m_context CaliperImpl_new) 0 1 (Inline 7) False)\<rparr>)"
    by (simp add: l) (simp add: count_attr_def)
  from a b c d e show ?thesis by blast
qed

section \<open>Dense and stable node ids\<close>

lemma nodes_kept_refl [simp]: "nodes_kept s s"
  by (simp add: nodes_kept_def)

lemma nodes_kept_context [simp]: "nodes_kept s (s'\<lparr>m_context := c\<rparr>) = nodes_kept s s'"
  by (simp add: nodes_kept_def)

lemma nodes_kept_add_child [simp]: "nodes_kept s (add_child s p a d)"
  by (simp add: nodes_kept_def)

lemma begin_nodes_kept:
  assumes "tree_inv s" and "begin_impl s env attr d = Inr (r, s')"
  shows "nodes_kept s s'"
proof (cases "is_invalid attr \<or> (store_as_value attr \<and> length d = 8)")
  case True
  with assms(2) show ?thesis
    by (auto simp: begin_impl_def Let_def Context_set_def split: if_splits)
next
  case False
  then have v: "\<not> is_invalid attr" and nv: "\<not> (store_as_value attr \<and> length d = 8)"
    by simp_all
  show ?thesis
  proof (cases "valid_ptr s (begin_parent s env attr)")
    case False
    from begin_out_of_range [OF assms(1) v nv False] assms(2) show ?thesis by simp
  next
    case True
    from begin_impl_eq [OF assms(1) v nv True] assms(2) show ?thesis
      by (auto split: option.splits)
  qed
qed

lemma set_nodes_kept:
  assumes "tree_inv s" and "set_impl s env attr d = Inr (r, s')"
  shows "nodes_kept s s'"
proof (cases "is_invalid attr \<or> (store_as_value attr \<and> length d = 8)")
  case True
  with assms(2) show ?thesis
    by (auto simp: set_impl_def Let_def Context_set_def split: if_splits)
next
  case False
  then have v: "\<not> is_invalid attr" and nv: "\<not> (store_as_value attr \<and> length d = 8)"
    by simp_all
  show ?thesis
  proof (cases "\<forall>e. Context_get (m_context s) env (attr_id attr) = Some e \<longrightarrow>
                      slot_raw e < length (m_nodes s)")
    case False
    then obtain e where "Context_get (m_context s) env (attr_id attr) = Some e"
      "\<not> slot_raw e < length (m_nodes s)"
      by blast
    from set_out_of_range [OF assms(1) v nv this] assms(2) show ?thesis by simp
  next
    case True
    from set_impl_eq [OF assms(1) v nv True] assms(2) show ?thesis
      by (auto split: option.splits)
  qed
qed

lemma end_nodes_same:
  assumes "end_impl s env attr = Some (Inr (r, s'))"
  shows "m_nodes s' = m_nodes s"
  using assms
  by (auto simp: end_impl_def and_then_def Let_def Context_set_def Context_unset_def
       split: sum.splits prod.splits option.splits if_splits node_ptr.splits)

lemma create_attribute_nodes_same:
  "create_attribute s name v g = Inr (a, s') \<Longrightarrow> m_nodes s' = m_nodes s"
  by (auto simp: create_attribute_def and_then_def Let_def split: sum.splits prod.splits)

lemma get_nodes_same:
  "get_impl s i = Inr (r, s') \<Longrightarrow> m_nodes s' = m_nodes s"
  by (auto simp: get_impl_def and_then_def Let_def split: sum.splits prod.splits if_splits)

lemma exec_nodes_kept:
  assumes "tree_inv s" and "exec s x = Some (Inr s')"
  shows "nodes_kept s s'"
proof (cases x)
  case (CreateAttribute name v g)
  with assms(2) obtain a where "create_attribute s name v g = Inr (a, s')"
    by (auto simp: and_then_def split: sum.splits)
  from create_attribute_nodes_same [OF this] show ?thesis by (simp add: nodes_kept_def)
next
  case (Begin env attr d)
  with assms(2) obtain r where "begin_impl s env attr d = Inr (r, s')"
    by (auto simp: and_then_def split: sum.splits)
  from begin_nodes_kept [OF assms(1) this] show ?thesis .
next
  case (End env attr)
  with assms(2) obtain r where "end_impl s env attr = Some (Inr (r, s'))"
    by (auto simp: and_then_def split: sum.splits option.splits)
  from end_nodes_same [OF this] show ?thesis by (simp add: nodes_kept_def)
next
  case (Set env attr d)
  with assms(2) obtain r where "set_impl s env attr d = Inr (r, s')"
    by (auto simp: and_then_def split: sum.splits)
  from set_nodes_kept [OF assms(1) this] show ?thesis .
next
  case (Get i)
  with assms(2) obtain r where "get_impl s i = Inr (r, s')"
    by (auto simp: and_then_def split: sum.splits)
  from get_nodes_same [OF this] show ?thesis by (simp add: nodes_kept_def)
next
  case (SetEnvironmentCallback cb)
  with assms(2) show ?thesis
    by (auto simp: set_environment_callback_def nodes_kept_def)
qed

lemma create_node_eq:
  "m_nodelock s = lock_free \<Longrightarrow>
   create_node s attr d =
     Inr (length (m_nodes s),
          s\<lparr>m_nodelock := lock_free,
            m_nodes := m_nodes s @ [Node_new (length (m_nodes s)) (attr_id attr) d]\<rparr>)"
  by (simp add: create_node_def lock_defs Let_def)

lemma reachable_tree_inv: "reachable s \<Longrightarrow> tree_inv s"
  using reachable_inv by (simp add: state_inv_def)

lemma run_append:
  "run s (xs @ ys) = (case run s xs of None \<Rightarrow> None | Some s1 \<Rightarrow> run s1 ys)"
  by (induction xs arbitrary: s) (auto split: option.splits sum.splits)

lemma reachable_step:
  assumes "reachable s" and "allowed s x" and "exec s x = Some (Inr s')"
  shows "reachable s'"
proof -
  from assms(1) obtain ops where "run CaliperImpl_new ops = Some s"
    by (auto simp: reachable_def)
  with assms(2,3) have "run CaliperImpl_new (ops @ [x]) = Some s'"
    by (simp add: run_append)
  then show ?thesis unfolding reachable_def by blast
qed

lemma reachable_run:
  "run CaliperImpl_new ops = Some s \<Longrightarrow> reachable s"
  unfolding reachable_def by blast

text \<open>
  C7: in every reachable state with \<open>N\<close> nodes, each \<open>i < N\<close> is the id of the node at index
  \<open>i\<close>, and \<open>get(i)\<close> returns that node and leaves the state as it is; \<open>create_node\<close> gives the
  new node the id \<open>N\<close>, its index; and no call of the interface changes the id of a node
  that exists or shortens the vector.
\<close>

theorem node_ids_dense_and_stable:
  assumes "reachable s"
  shows "(\<forall>i < length (m_nodes s).
            get_impl s i = Inr (Some (m_nodes s ! i), s) \<and> node_id (m_nodes s ! i) = i) \<and>
         (\<forall>attr d. create_node s attr d =
            Inr (length (m_nodes s),
                 s\<lparr>m_nodes := m_nodes s @ [Node_new (length (m_nodes s)) (attr_id attr) d]\<rparr>)) \<and>
         (\<forall>x s'. allowed s x \<and> exec s x = Some (Inr s') \<longrightarrow>
            length (m_nodes s) \<le> length (m_nodes s') \<and>
            (\<forall>i < length (m_nodes s). node_id (m_nodes s' ! i) = node_id (m_nodes s ! i)))"
proof -
  from reachable_tree_inv [OF assms] have ti: "tree_inv s" .
  then have lf: "m_nodelock s = lock_free" and ii: "ids_inv s"
    by (simp_all add: tree_inv_def)
  have a: "get_impl s i = Inr (Some (m_nodes s ! i), s) \<and> node_id (m_nodes s ! i) = i"
    if "i < length (m_nodes s)" for i
    using that ii by (simp add: get_impl_eq [OF lf] ids_inv_def)
  have b: "create_node s attr d =
            Inr (length (m_nodes s),
                 s\<lparr>m_nodes := m_nodes s @ [Node_new (length (m_nodes s)) (attr_id attr) d]\<rparr>)"
    for attr d
    using create_node_eq [OF lf, of attr d] nodelock_idem [OF lf] by simp
  have c: "length (m_nodes s) \<le> length (m_nodes s') \<and>
            (\<forall>i < length (m_nodes s). node_id (m_nodes s' ! i) = node_id (m_nodes s ! i))"
    if "exec s x = Some (Inr s')" for x s'
    using exec_nodes_kept [OF ti that] by (simp add: nodes_kept_def)
  from a b c show ?thesis by blast
qed

theorem node_ids_dense_and_stable_witness:
  "\<exists>s. run CaliperImpl_new two_begins = Some s \<and> reachable s \<and> length (m_nodes s) = 2 \<and>
        get_impl s 1 = Inr (Some (m_nodes s ! 1), s) \<and> node_id (m_nodes s ! 1) = 1 \<and>
        node_data (m_nodes s ! 1) = [66] \<and>
        allowed s (End 0 phase_attr) \<and>
        (\<exists>s'. exec s (End 0 phase_attr) = Some (Inr s') \<and> length (m_nodes s') = 2 \<and>
              node_id (m_nodes s' ! 1) = 1)"
proof -
  have e: "map_option (\<lambda>s. (length (m_nodes s), node_data (m_nodes s ! 1), allowed s (End 0 phase_attr),
                map_option (map_sum id (\<lambda>s'. length (m_nodes s'))) (exec s (End 0 phase_attr))))
             (run CaliperImpl_new two_begins) = Some (2, [66], True, Some (Inr 2))"
    by (simp add: eval_defs two_begins_def phase_attr_def walk_up.simps)
  then obtain s where s: "run CaliperImpl_new two_begins = Some s"
    by blast
  from e s have f: "length (m_nodes s) = 2" "node_data (m_nodes s ! 1) = [66]"
    "allowed s (End 0 phase_attr)"
    "map_option (map_sum id (\<lambda>s'. length (m_nodes s'))) (exec s (End 0 phase_attr)) = Some (Inr 2)"
    by simp_all
  from f(4) obtain s' where s': "exec s (End 0 phase_attr) = Some (Inr s')" "length (m_nodes s') = 2"
    by (cases "exec s (End 0 phase_attr)") (auto simp: map_sum_def split: sum.splits)
  note th = node_ids_dense_and_stable [OF reachable_run [OF s]]
  from th f(1) have g: "get_impl s 1 = Inr (Some (m_nodes s ! 1), s)" "node_id (m_nodes s ! 1) = 1"
    by simp_all
  from th f(3) s'(1)
  have "\<forall>i < length (m_nodes s). node_id (m_nodes s' ! i) = node_id (m_nodes s ! i)"
    by blast
  with f(1) g(2) have "node_id (m_nodes s' ! 1) = 1"
    by simp
  with s reachable_run [OF s] f(1,2,3) g s' show ?thesis
    by blast
qed

section \<open>No duplicate nodes\<close>

text \<open>
  As long as no call has read the node vector out of range (the states \<open>reachable\<close>
  collects), no two nodes have the same parent, attribute id and payload; and a \<open>begin\<close>
  that takes the node branch while a child of its parent (the current node, or the root)
  already carries the attribute and the payload returns that child: the state changes in
  the context entry only, and no node is created.
\<close>

lemma no_duplicate_nodes:
  assumes "reachable s"
  shows "(\<forall>i < length (m_nodes s). \<forall>j < length (m_nodes s).
            node_parent (m_nodes s ! i) = node_parent (m_nodes s ! j) \<and>
            node_attribute (m_nodes s ! i) = node_attribute (m_nodes s ! j) \<and>
            node_data (m_nodes s ! i) = node_data (m_nodes s ! j) \<longrightarrow> i = j) \<and>
         (\<forall>env attr d c.
            \<not> is_invalid attr \<and> \<not> (store_as_value attr \<and> length d = 8) \<and>
            c < length (m_nodes s) \<and>
            node_parent (m_nodes s ! c) = Some (begin_parent s env attr) \<and>
            node_attribute (m_nodes s ! c) = attr_id attr \<and> node_data (m_nodes s ! c) = d \<longrightarrow>
            begin_impl s env attr d =
              Inr (CALI_SUCCESS,
                   s\<lparr>m_context := snd (Context_set (m_context s) env (attr_id attr)
                                         (Reference c) (is_global attr))\<rparr>))"
proof -
  from reachable_tree_inv [OF assms] have ti: "tree_inv s" .
  then have nd: "nodup_inv s" and ii: "ids_inv s" and pi: "parents_inv s" and ci: "children_inv s"
    by (simp_all add: tree_inv_def)
  have b: "begin_impl s env attr d =
              Inr (CALI_SUCCESS,
                   s\<lparr>m_context := snd (Context_set (m_context s) env (attr_id attr)
                                         (Reference c) (is_global attr))\<rparr>)"
    if v: "\<not> is_invalid attr" and nv: "\<not> (store_as_value attr \<and> length d = 8)"
      and c: "c < length (m_nodes s)"
      and p: "node_parent (m_nodes s ! c) = Some (begin_parent s env attr)"
      and a: "node_attribute (m_nodes s ! c) = attr_id attr" and dd: "node_data (m_nodes s ! c) = d"
    for env attr d c
  proof -
    from pi c p have vp: "valid_ptr s (begin_parent s env attr)"
      by (cases "begin_parent s env attr") (auto simp: parents_inv_def)
    from a dd have "equals (m_nodes s ! c) (attr_id attr) d"
      by (simp add: equals_def)
    from child_with_unique [OF ci nd vp c p this]
    have "child_with s (begin_parent s env attr) (attr_id attr) d = Some c" .
    moreover from ii c have "node_id (m_nodes s ! c) = c"
      by (simp add: ids_inv_def)
    ultimately show ?thesis
      using begin_impl_eq [OF ti v nv vp] by simp
  qed
  from nd have "\<forall>i < length (m_nodes s). \<forall>j < length (m_nodes s).
            node_parent (m_nodes s ! i) = node_parent (m_nodes s ! j) \<and>
            node_attribute (m_nodes s ! i) = node_attribute (m_nodes s ! j) \<and>
            node_data (m_nodes s ! i) = node_data (m_nodes s ! j) \<longrightarrow> i = j"
    by (simp add: nodup_inv_def)
  with b show ?thesis by blast
qed

text \<open>The lemma at work after the run \<open>begin_end\<close>: the second \<open>begin\<close> reuses node 0.\<close>

lemma no_duplicate_nodes_example:
  "\<exists>s. run CaliperImpl_new begin_end = Some s \<and> reachable s \<and> length (m_nodes s) = 1 \<and>
        node_parent (m_nodes s ! 0) = Some (begin_parent s 0 phase_attr) \<and>
        node_attribute (m_nodes s ! 0) = attr_id phase_attr \<and> node_data (m_nodes s ! 0) = [88] \<and>
        begin_impl s 0 phase_attr [88] =
          Inr (CALI_SUCCESS,
               s\<lparr>m_context := snd (Context_set (m_context s) 0 (attr_id phase_attr)
                                     (Reference 0) (is_global phase_attr))\<rparr>)"
proof -
  have e: "map_option (\<lambda>s. (length (m_nodes s), node_parent (m_nodes s ! 0), begin_parent s 0 phase_attr,
                node_attribute (m_nodes s ! 0), node_data (m_nodes s ! 0)))
             (run CaliperImpl_new begin_end) = Some (1, Some Root, Root, 0, [88])"
    by (simp add: eval_defs begin_end_def phase_attr_def walk_up.simps begin_parent_def)
  then obtain s where s: "run CaliperImpl_new begin_end = Some s"
    by blast
  from e s have f: "length (m_nodes s) = 1" "node_parent (m_nodes s ! 0) = Some Root"
    "begin_parent s 0 phase_attr = Root" "node_attribute (m_nodes s ! 0) = 0"
    "node_data (m_nodes s ! 0) = [88]"
    by simp_all
  have v: "\<not> is_invalid phase_attr" "\<not> store_as_value phase_attr" "attr_id phase_attr = 0"
    by (simp_all add: phase_attr_def is_invalid_def Attribute_invalid_def CALI_INV_ID_def)
  from no_duplicate_nodes [OF reachable_run [OF s]] f v
  have "begin_impl s 0 phase_attr [88] =
          Inr (CALI_SUCCESS,
               s\<lparr>m_context := snd (Context_set (m_context s) 0 (attr_id phase_attr)
                                     (Reference 0) (is_global phase_attr))\<rparr>)"
    by simp
  with f v s reachable_run [OF s] show ?thesis by auto
qed

text \<open>
  C4 has the node store free of duplicates after any sequence of \<open>begin\<close>, \<open>end\<close> and
  \<open>set\<close>. A sequence of two \<open>begin\<close> calls on a store-as-value attribute leaves the
  range of the node vector: the first, with an 8-byte payload, stores the scalar 5 as the
  entry of (env, attr) (line 139); the second, with a 1-byte payload, takes the node branch
  and uses the value of that entry as a node index (line 145), reading \<open>m_nodes[5]\<close> while
  the vector holds no node. From there on the code has no defined behaviour; when the read
  yields a null pointer, the new node is created without being appended to any parent
  (line 156), and the same two calls again create a second node with the same parent
  (none), attribute and payload.
\<close>

theorem begin_reads_scalar_as_node_index:
  "map_option (\<lambda>s. (registered s count_attr, Context_get (m_context s) 0 1, length (m_nodes s),
                     map_sum id fst (begin_impl s 0 count_attr [9])))
     (run CaliperImpl_new
        [CreateAttribute ''phase'' False False, CreateAttribute ''count'' True False,
         Begin 0 count_attr [5, 0, 0, 0, 0, 0, 0, 0]]) =
   Some (True, Some (Inline 5), 0, Inl OutOfBounds)"
  by (simp add: eval_defs count_attr_def)

section \<open>\<open>begin\<close> followed by \<open>end\<close>\<close>



lemma Context_get_set_local [simp]:
  "Context_get (snd (Context_set c env key v False)) env key = Some v"
  by (simp add: Context_get_def Context_set_def)





section \<open>\<open>set\<close>\<close>

text \<open>
  What \<open>set\<close> does in a reachable state, for a registered valid attribute that is not
  store-as-value and any payload: it succeeds, and writes to the slot of the attribute (in
  the overlay for a global attribute, in the map of the environment otherwise) a node that
  carries the attribute and the payload and whose parent is \<open>set_parent\<close>: the root when
  there was no entry, the parent of the node the entry named otherwise. That node is an old
  one (and then no node is created) or the one new node; every node that existed is kept as
  it was. \<open>Context::get\<close> resolves (env, attr) to that node unless the attribute is global
  and the map of the environment holds an entry under its key.
\<close>

lemma set_binds_sibling:
  assumes "reachable s" and "attr \<in> set (m_attributes s)" and "\<not> is_invalid attr"
    and "\<not> store_as_value attr"
  shows "\<exists>c s'. set_impl s env attr d = Inr (CALI_SUCCESS, s') \<and>
           entry_written s' env attr = Some (Reference c) \<and>
           (is_global attr \<and> ctx_env (m_context s) env (attr_id attr) \<noteq> None \<or>
            Context_get (m_context s') env (attr_id attr) = Some (Reference c)) \<and>
           c < length (m_nodes s') \<and> node_id (m_nodes s' ! c) = c \<and>
           node_attribute (m_nodes s' ! c) = attr_id attr \<and> node_data (m_nodes s' ! c) = d \<and>
           node_parent (m_nodes s' ! c) = Some (set_parent s env attr) \<and>
           (case Context_get (m_context s) env (attr_id attr) of
              None \<Rightarrow> set_parent s env attr = Root
            | Some e \<Rightarrow> node_parent (m_nodes s ! slot_raw e) = Some (set_parent s env attr)) \<and>
           (c < length (m_nodes s) \<and> m_nodes s' = m_nodes s \<and> m_root s' = m_root s \<or>
            c = length (m_nodes s) \<and> length (m_nodes s') = Suc (length (m_nodes s))) \<and>
           nodes_kept s s'"
proof -
  let ?k = "attr_id attr"
  let ?p = "set_parent s env attr"
  from reachable_inv [OF assms(1)] have inv: "state_inv s" .
  then have ti: "tree_inv s" and ri: "registry_inv s" and ci: "ctx_inv s"
    by (simp_all add: state_inv_def)
  from ti have chi: "children_inv s" and ii: "ids_inv s" and pi: "parents_inv s"
    by (simp_all add: tree_inv_def)
  from registry_lookup [OF ri assms(2)]
  have key: "?k < length (m_attributes s)" and at: "m_attributes s ! ?k = attr"
    by simp_all
  have nv: "\<not> (store_as_value attr \<and> length d = 8)"
    using assms(4) by simp
  have rng: "\<forall>e. Context_get (m_context s) env ?k = Some e \<longrightarrow> slot_raw e < length (m_nodes s)"
  proof (intro allI impI)
    fix e assume "Context_get (m_context s) env ?k = Some e"
    from ctx_inv_get [OF ci this] at assms(4) show "slot_raw e < length (m_nodes s)"
      by (cases e) simp_all
  qed
  note vp = valid_set_parent [OF ti rng]
  have par: "(case Context_get (m_context s) env ?k of
              None \<Rightarrow> ?p = Root
            | Some e \<Rightarrow> node_parent (m_nodes s ! slot_raw e) = Some ?p)"
  proof (cases "Context_get (m_context s) env ?k")
    case None
    then show ?thesis by (simp add: set_parent_def)
  next
    case (Some e)
    with rng have "slot_raw e < length (m_nodes s)" by simp
    with pi have "node_parent (m_nodes s ! slot_raw e) = Some Root \<or>
       (\<exists>j < slot_raw e. node_parent (m_nodes s ! slot_raw e) = Some (Idx j))"
      by (simp add: parents_inv_def)
    with Some show ?thesis by (auto simp: set_parent_def)
  qed
  note eq = set_impl_eq [OF ti assms(3) nv rng]
  show ?thesis
  proof (cases "child_with s ?p ?k d")
    case None
    let ?s' = "(add_child s ?p ?k d)\<lparr>m_context :=
                 snd (Context_set (m_context s) env ?k (Reference (length (m_nodes s))) (is_global attr))\<rparr>"
    from eq None have "set_impl s env attr d = Inr (CALI_SUCCESS, ?s')"
      by simp
    moreover have "entry_written ?s' env attr = Some (Reference (length (m_nodes s)))"
      by (simp add: entry_written_def Context_set_def)
    moreover have "is_global attr \<and> ctx_env (m_context s) env ?k \<noteq> None \<or>
        Context_get (m_context ?s') env ?k = Some (Reference (length (m_nodes s)))"
      by (cases "is_global attr"; cases "ctx_env (m_context s) env ?k")
         (simp_all add: Context_get_def Context_set_def)
    moreover have "length (m_nodes s) < length (m_nodes ?s')"
      "node_id (m_nodes ?s' ! length (m_nodes s)) = length (m_nodes s)"
      "node_attribute (m_nodes ?s' ! length (m_nodes s)) = ?k"
      "node_data (m_nodes ?s' ! length (m_nodes s)) = d"
      "node_parent (m_nodes ?s' ! length (m_nodes s)) = Some ?p"
      "length (m_nodes ?s') = Suc (length (m_nodes s))"
      "nodes_kept s ?s'"
      by simp_all
    ultimately show ?thesis using par by blast
  next
    case (Some c)
    let ?s' = "s\<lparr>m_context := snd (Context_set (m_context s) env ?k (Reference c) (is_global attr))\<rparr>"
    from child_with_Some [OF chi vp Some]
    have c: "c < length (m_nodes s)" "node_parent (m_nodes s ! c) = Some ?p"
      "node_attribute (m_nodes s ! c) = ?k" "node_data (m_nodes s ! c) = d"
      by (simp_all add: equals_def)
    with ii have id: "node_id (m_nodes s ! c) = c" by (simp add: ids_inv_def)
    from eq Some id have "set_impl s env attr d = Inr (CALI_SUCCESS, ?s')"
      by simp
    moreover have "entry_written ?s' env attr = Some (Reference c)"
      by (simp add: entry_written_def Context_set_def)
    moreover have "is_global attr \<and> ctx_env (m_context s) env ?k \<noteq> None \<or>
        Context_get (m_context ?s') env ?k = Some (Reference c)"
      by (cases "is_global attr"; cases "ctx_env (m_context s) env ?k")
         (simp_all add: Context_get_def Context_set_def)
    moreover have "c < length (m_nodes ?s')" "node_id (m_nodes ?s' ! c) = c"
      "node_attribute (m_nodes ?s' ! c) = ?k" "node_data (m_nodes ?s' ! c) = d"
      "node_parent (m_nodes ?s' ! c) = Some ?p" "m_nodes ?s' = m_nodes s" "m_root ?s' = m_root s"
      "nodes_kept s ?s'"
      using c id by simp_all
    ultimately show ?thesis using par c(1) by blast
  qed
qed

text \<open>The lemma at work after the run \<open>one_begin\<close>.\<close>

lemma set_binds_sibling_example:
  "\<exists>s. run CaliperImpl_new one_begin = Some s \<and> reachable s \<and>
        phase_attr \<in> set (m_attributes s) \<and> \<not> is_invalid phase_attr \<and>
        \<not> store_as_value phase_attr \<and> \<not> is_global phase_attr \<and>
        length (m_nodes s) = 1 \<and> node_data (m_nodes s ! 0) = [65] \<and>
        Context_get (m_context s) 0 0 = Some (Reference 0) \<and> set_parent s 0 phase_attr = Root \<and>
        (\<exists>s'. set_impl s 0 phase_attr [66] = Inr (CALI_SUCCESS, s') \<and>
              Context_get (m_context s') 0 0 = Some (Reference 1) \<and>
              length (m_nodes s') = 2 \<and> node_data (m_nodes s' ! 1) = [66] \<and>
              node_parent (m_nodes s' ! 1) = Some Root \<and> node_data (m_nodes s' ! 0) = [65])"
proof -
  have e: "map_option (\<lambda>s. (m_attributes s, Context_get (m_context s) 0 0, length (m_nodes s),
                node_data (m_nodes s ! 0), child_with s Root 0 [66], set_parent s 0 phase_attr))
             (run CaliperImpl_new one_begin) =
           Some ([phase_attr], Some (Reference 0), 1, [65], None, Root)"
    by (simp add: eval_defs one_begin_def phase_attr_def child_with_def node_at_def set_parent_def)
  then obtain s where s: "run CaliperImpl_new one_begin = Some s"
    by blast
  from e s have f: "phase_attr \<in> set (m_attributes s)" "Context_get (m_context s) 0 0 = Some (Reference 0)"
    "length (m_nodes s) = 1" "node_data (m_nodes s ! 0) = [65]" "set_parent s 0 phase_attr = Root"
    by simp_all
  have v: "\<not> is_invalid phase_attr" "\<not> store_as_value phase_attr" "\<not> is_global phase_attr"
    "attr_id phase_attr = 0"
    by (simp_all add: phase_attr_def is_invalid_def Attribute_invalid_def CALI_INV_ID_def)
  from set_binds_sibling [OF reachable_run [OF s] f(1) v(1-2), of 0 "[66]"]
  obtain c s' where r: "set_impl s 0 phase_attr [66] = Inr (CALI_SUCCESS, s')"
    "Context_get (m_context s') 0 0 = Some (Reference c)"
    "c < length (m_nodes s')" "node_data (m_nodes s' ! c) = [66]"
    "node_parent (m_nodes s' ! c) = Some Root"
    "c < length (m_nodes s) \<and> m_nodes s' = m_nodes s \<and> m_root s' = m_root s \<or>
       c = length (m_nodes s) \<and> length (m_nodes s') = Suc (length (m_nodes s))"
    "nodes_kept s s'"
    using v(3,4) f(5) by auto
  from r(4,6) f(3,4) have c: "c = 1" "length (m_nodes s') = 2"
    by auto
  from r(7) f(3,4) have "node_data (m_nodes s' ! 0) = [65]"
    by (simp add: nodes_kept_def)
  with r(1,2,4,5) c
  have "\<exists>s'. set_impl s 0 phase_attr [66] = Inr (CALI_SUCCESS, s') \<and>
              Context_get (m_context s') 0 0 = Some (Reference 1) \<and>
              length (m_nodes s') = 2 \<and> node_data (m_nodes s' ! 1) = [66] \<and>
              node_parent (m_nodes s' ! 1) = Some Root \<and> node_data (m_nodes s' ! 0) = [65]"
    by auto
  with s reachable_run [OF s] f v(1-3) show ?thesis
    by (intro exI [of _ s]) simp
qed

text \<open>
  C6 has \<open>set\<close> bind (env, attr) to the node it found or created. For a global attribute
  this fails once \<open>end\<close> has run with the current node below a node of the attribute:
  \<open>end\<close> calls \<open>m_context.set(env, key, node->id())\<close> (line 206) without the
  \<open>attr.is_global()\<close> that \<open>begin\<close> and \<open>set\<close> pass (lines 163 and 255), so it writes to
  the map of the environment, and \<open>Context::get\<close> resolves that map first. After
  \<open>begin A; begin B; end\<close> the call \<open>set C\<close> creates node 2 (payload C) under the root and
  writes it to the overlay, and (env, attr) still names node 0 (payload A).
\<close>

theorem set_after_end_not_bound:
  "map_option (\<lambda>s. (Context_get (m_context s) 0 0, ctx_global (m_context s) 0,
                     ctx_env (m_context s) 0 0,
                     map node_data (m_nodes s), map node_parent (m_nodes s)))
     (run CaliperImpl_new
        [CreateAttribute ''host'' False True, Begin 0 host_attr [65], Begin 0 host_attr [66],
         End 0 host_attr, Set 0 host_attr [67]]) =
   Some (Some (Reference 0), Some (Reference 2), Some (Reference 0), [[65], [66], [67]],
         [Some Root, Some (Idx 0), Some Root])"
  by (simp add: eval_defs host_attr_def walk_up.simps)

section \<open>\<open>end\<close>\<close>

text \<open>
  In a reachable state the current entry of a registered attribute that is not
  store-as-value names a node of the store, so line 189 reads inside the vector.
\<close>

lemma reachable_entry_names_node:
  assumes "reachable s" and "attr \<in> set (m_attributes s)" and "\<not> store_as_value attr"
    and "Context_get (m_context s) env (attr_id attr) = Some e"
  shows "slot_raw e < length (m_nodes s)"
proof -
  from reachable_inv [OF assms(1)] have ri: "registry_inv s" and ci: "ctx_inv s"
    by (simp_all add: state_inv_def)
  from registry_lookup [OF ri assms(2)] have "m_attributes s ! attr_id attr = attr"
    by simp
  with ctx_inv_get [OF ci assms(4)] assms(3) show ?thesis
    by (cases e) simp_all
qed

text \<open>
  What \<open>end\<close> does on a well-formed tree when the overlay holds no entry under the key of
  the attribute (in a reachable state: when the attribute is not global). \<open>end\<close> of the
  invalid attribute fails with \<open>CALI_EINV\<close>. \<open>end\<close> of a valid store-as-value attribute
  removes the env-local entry and fails exactly when there was no entry. \<open>end\<close> of a valid
  attribute that is not store-as-value, whose current entry (if any) names a node of the
  store, returns, and fails exactly when there is no current entry or no node on the
  parent chain of the current node carries the attribute; when it succeeds, with \<open>q\<close> the
  nearest node on that chain carrying the attribute, it removes the entry if the parent of
  \<open>q\<close> is the root and sets it to the id of the parent of \<open>q\<close> otherwise.
\<close>

lemma end_failure_and_effect:
  assumes "tree_inv s" and "ctx_global (m_context s) (attr_id attr) = None"
  shows "(is_invalid attr \<longrightarrow> end_impl s env attr = Some (Inr (CALI_EINV, s))) \<and>
         (\<not> is_invalid attr \<and> store_as_value attr \<longrightarrow>
            (\<exists>r. end_impl s env attr =
                   Some (Inr (r, s\<lparr>m_context := snd (Context_unset (m_context s) env (attr_id attr))\<rparr>)) \<and>
                 (r = CALI_EINV \<longleftrightarrow> Context_get (m_context s) env (attr_id attr) = None))) \<and>
         (\<not> is_invalid attr \<and> \<not> store_as_value attr \<and>
          (\<forall>e. Context_get (m_context s) env (attr_id attr) = Some e \<longrightarrow>
                slot_raw e < length (m_nodes s)) \<longrightarrow>
            (\<exists>r s'. end_impl s env attr = Some (Inr (r, s')) \<and>
               (r = CALI_EINV \<longleftrightarrow>
                  (case Context_get (m_context s) env (attr_id attr) of
                     None \<Rightarrow> True
                   | Some e \<Rightarrow> nearest_carrying s (attr_id attr) (slot_raw e) = None)) \<and>
               (\<forall>e q. Context_get (m_context s) env (attr_id attr) = Some e \<and>
                      nearest_carrying s (attr_id attr) (slot_raw e) = Some q \<longrightarrow>
                  node_parent (node_at s q) = Some Root \<and>
                    s' = s\<lparr>m_context := snd (Context_unset (m_context s) env (attr_id attr))\<rparr> \<or>
                  (\<exists>j. node_parent (node_at s q) = Some (Idx j) \<and>
                     s' = s\<lparr>m_context := snd (Context_set (m_context s) env (attr_id attr)
                                                (Reference j) False)\<rparr>))))"
proof (intro conjI impI)
  assume "is_invalid attr"
  then show "end_impl s env attr = Some (Inr (CALI_EINV, s))"
    by (simp add: end_impl_def)
next
  assume "\<not> is_invalid attr \<and> store_as_value attr"
  with assms(2)
  show "\<exists>r. end_impl s env attr =
                   Some (Inr (r, s\<lparr>m_context := snd (Context_unset (m_context s) env (attr_id attr))\<rparr>)) \<and>
                 (r = CALI_EINV \<longleftrightarrow> Context_get (m_context s) env (attr_id attr) = None)"
    by (simp add: end_impl_def Let_def Context_unset_def Context_get_def split: option.splits)
next
  let ?k = "attr_id attr"
  assume a: "\<not> is_invalid attr \<and> \<not> store_as_value attr \<and>
          (\<forall>e. Context_get (m_context s) env (attr_id attr) = Some e \<longrightarrow>
                slot_raw e < length (m_nodes s))"
  then have v: "\<not> is_invalid attr" and nv: "\<not> store_as_value attr"
    and inr: "\<forall>e. Context_get (m_context s) env (attr_id attr) = Some e \<longrightarrow>
                slot_raw e < length (m_nodes s)"
    by simp_all
  from v have kv: "?k \<noteq> CALI_INV_ID"
    by (simp add: is_invalid_def Attribute_invalid_def)
  from assms(1) have ri: "root_inv s" and pi: "parents_inv s"
    by (simp_all add: tree_inv_def)
  show "\<exists>r s'. end_impl s env attr = Some (Inr (r, s')) \<and>
               (r = CALI_EINV \<longleftrightarrow>
                  (case Context_get (m_context s) env ?k of
                     None \<Rightarrow> True
                   | Some e \<Rightarrow> nearest_carrying s ?k (slot_raw e) = None)) \<and>
               (\<forall>e q. Context_get (m_context s) env ?k = Some e \<and>
                      nearest_carrying s ?k (slot_raw e) = Some q \<longrightarrow>
                  node_parent (node_at s q) = Some Root \<and>
                    s' = s\<lparr>m_context := snd (Context_unset (m_context s) env ?k)\<rparr> \<or>
                  (\<exists>j. node_parent (node_at s q) = Some (Idx j) \<and>
                     s' = s\<lparr>m_context := snd (Context_set (m_context s) env ?k
                                                (Reference j) False)\<rparr>))"
  proof (cases "Context_get (m_context s) env ?k")
    case None
    with v nv have "end_impl s env attr = Some (Inr (CALI_EINV, s))"
      by (simp add: end_impl_def)
    with None show ?thesis by simp
  next
    case (Some e)
    with inr have rng: "slot_raw e < length (m_nodes s)" by simp
    from Some assms(2) have "ctx_env (m_context s) env ?k = Some e"
      by (simp add: Context_get_def split: option.splits)
    then have ok: "fst (Context_unset (m_context s) env ?k) = CALI_SUCCESS"
      by (simp add: Context_unset_def)
    note eq = end_impl_eq [OF assms(1) v nv Some rng]
    show ?thesis
    proof (cases "nearest_carrying s ?k (slot_raw e)")
      case None
      with eq Some show ?thesis by simp
    next
      case (Some q)
      from nearest_carrying_Some [OF ri pi rng kv Some]
      obtain k where k: "k < length (m_nodes s)" "q = Idx k"
        and par: "node_parent (m_nodes s ! k) = Some Root \<or>
              (\<exists>j < k. node_parent (m_nodes s ! k) = Some (Idx j))"
        by blast
      from par show ?thesis
      proof
        assume "node_parent (m_nodes s ! k) = Some Root"
        with eq Some k ok \<open>Context_get (m_context s) env ?k = Some e\<close> show ?thesis
          by (simp add: node_at_def)
      next
        assume "\<exists>j < k. node_parent (m_nodes s ! k) = Some (Idx j)"
        then obtain j where "node_parent (m_nodes s ! k) = Some (Idx j)" by blast
        with eq Some k \<open>Context_get (m_context s) env ?k = Some e\<close> show ?thesis
          by (simp add: node_at_def)
      qed
    qed
  qed
qed

lemma parent_chain_nodes:
  assumes "m_nodes t = m_nodes s"
  shows "parent_chain t i = parent_chain s i"
proof (induction i rule: less_induct)
  case (less i)
  show ?case
    by (subst parent_chain.simps [of t i], subst parent_chain.simps [of s i])
       (simp add: assms less.IH split: option.splits node_ptr.splits)
qed

lemma node_at_context [simp]: "node_at (s\<lparr>m_context := c\<rparr>) p = node_at s p"
  by (cases p) (simp_all add: node_at_def)

lemma carries_context [simp]: "carries (s\<lparr>m_context := c\<rparr>) a = carries s a"
  by (rule ext) (simp add: carries_def)

lemma nearest_carrying_context [simp]:
  "nearest_carrying (s\<lparr>m_context := c\<rparr>) a i = nearest_carrying s a i"
  by (simp add: nearest_carrying_def parent_chain_nodes [of "s\<lparr>m_context := c\<rparr>" s])

lemma not_EINV: "r \<noteq> CALI_EINV \<longleftrightarrow> r = CALI_SUCCESS"
  by (cases r) simp_all

text \<open>
  The lemma at work after the run \<open>mixed_chain\<close>: \<open>end\<close> with the current node carrying the
  attribute, \<open>end\<close> with the walk going one node up, and \<open>end\<close> in an environment without
  entry.
\<close>

lemma end_failure_and_effect_example:
  "\<exists>s. run CaliperImpl_new mixed_chain = Some s \<and> tree_inv s \<and>
        map node_attribute (m_nodes s) = [0, 1] \<and> map node_parent (m_nodes s) = [Some Root, Some (Idx 0)] \<and>
        \<not> is_invalid phase_attr \<and> \<not> store_as_value phase_attr \<and>
        Context_get (m_context s) 0 0 = Some (Reference 0) \<and>
        end_impl s 0 phase_attr =
          Some (Inr (CALI_SUCCESS, s\<lparr>m_context := snd (Context_unset (m_context s) 0 0)\<rparr>)) \<and>
        end_impl (s\<lparr>m_context := snd (Context_set (m_context s) 5 0 (Reference 1) False)\<rparr>) 5 phase_attr =
          Some (Inr (CALI_SUCCESS, s\<lparr>m_context := snd (Context_unset
                  (snd (Context_set (m_context s) 5 0 (Reference 1) False)) 5 0)\<rparr>)) \<and>
        (\<exists>s'. end_impl s 7 phase_attr = Some (Inr (CALI_EINV, s')))"
proof -
  have e: "map_option (\<lambda>s. (map node_attribute (m_nodes s), map node_parent (m_nodes s),
                Context_get (m_context s) 0 0, Context_get (m_context s) 7 0,
                ctx_global (m_context s) 0))
             (run CaliperImpl_new mixed_chain) =
           Some ([0, 1], [Some Root, Some (Idx 0)], Some (Reference 0), None, None)"
    by (simp add: eval_defs mixed_chain_def phase_attr_def count_attr_def)
  then obtain s where s: "run CaliperImpl_new mixed_chain = Some s"
    by blast
  from e s have f: "map node_attribute (m_nodes s) = [0, 1]"
    "map node_parent (m_nodes s) = [Some Root, Some (Idx 0)]"
    "Context_get (m_context s) 0 0 = Some (Reference 0)" "Context_get (m_context s) 7 0 = None"
    "ctx_global (m_context s) 0 = None"
    by simp_all
  from f(1) have len: "length (m_nodes s) = 2"
    by (metis length_map length_Cons list.size(3) numeral_2_eq_2)
  from f(1) have a0: "node_attribute (m_nodes s ! 0) = 0" and a1: "node_attribute (m_nodes s ! 1) = 1"
    by (metis len nth_map nth_Cons_0 zero_less_numeral,
        metis One_nat_def len nth_map nth_Cons_0 nth_Cons_Suc one_less_numeral_iff semiring_norm(76))
  from f(2) have p0: "node_parent (m_nodes s ! 0) = Some Root"
    and p1: "node_parent (m_nodes s ! 1) = Some (Idx 0)"
    by (metis len nth_map nth_Cons_0 zero_less_numeral,
        metis One_nat_def len nth_map nth_Cons_0 nth_Cons_Suc one_less_numeral_iff semiring_norm(76))
  have v: "\<not> is_invalid phase_attr" "\<not> store_as_value phase_attr" "attr_id phase_attr = 0"
    by (simp_all add: phase_attr_def is_invalid_def Attribute_invalid_def CALI_INV_ID_def)
  from reachable_tree_inv [OF reachable_run [OF s]] have ti: "tree_inv s" .
  have n0: "nearest_carrying s 0 0 = Some (Idx 0)"
    using a0 by (simp add: nearest_carrying_self)
  have n1: "nearest_carrying s 0 1 = Some (Idx 0)"
    using a0 a1 p0 p1
    by (simp add: nearest_carrying_def parent_chain.simps [of s "Suc 0"] parent_chain.simps [of s 0]
        carries_def node_at_def)
  let ?t = "s\<lparr>m_context := snd (Context_set (m_context s) 5 0 (Reference 1) False)\<rparr>"
  have nt: "nearest_carrying ?t 0 1 = Some (Idx 0)"
    using n1 by simp
  have tt: "tree_inv ?t" using ti by simp
  have g: "ctx_global (m_context s) (attr_id phase_attr) = None"
    using f(5) v(3) by simp
  have gt: "ctx_global (m_context ?t) (attr_id phase_attr) = None"
    using f(5) v(3) by (simp add: Context_set_def)
  have r0: "\<forall>e. Context_get (m_context s) 0 (attr_id phase_attr) = Some e \<longrightarrow>
                slot_raw e < length (m_nodes s)"
    using f(3) len v(3) by simp
  have r5: "\<forall>e. Context_get (m_context ?t) 5 (attr_id phase_attr) = Some e \<longrightarrow>
                slot_raw e < length (m_nodes ?t)"
    using len v(3) by simp
  have r7: "\<forall>e. Context_get (m_context s) 7 (attr_id phase_attr) = Some e \<longrightarrow>
                slot_raw e < length (m_nodes s)"
    using f(4) v(3) by simp
  from end_failure_and_effect [OF ti g, of 0] r0 v f(3) n0 p0
  have c0: "end_impl s 0 phase_attr =
          Some (Inr (CALI_SUCCESS, s\<lparr>m_context := snd (Context_unset (m_context s) 0 0)\<rparr>))"
    by (auto simp: node_at_def not_EINV)
  from end_failure_and_effect [OF tt gt, of 5] r5 v nt p0
  have c5: "end_impl ?t 5 phase_attr =
          Some (Inr (CALI_SUCCESS, s\<lparr>m_context := snd (Context_unset
                  (snd (Context_set (m_context s) 5 0 (Reference 1) False)) 5 0)\<rparr>))"
    by (auto simp: node_at_def not_EINV)
  from end_failure_and_effect [OF ti g, of 7] r7 v f(4)
  have c7: "\<exists>s'. end_impl s 7 phase_attr = Some (Inr (CALI_EINV, s'))"
    by auto
  from s ti f(1,2,3) v(1,2) c0 c5 c7 show ?thesis
    by (intro exI [of _ s]) simp
qed

text \<open>
  C5 has \<open>end\<close> of a valid attribute succeed when (env, attr) has a current entry and the
  current node carries the attribute, and has it unset the entry when the parent of that
  node is the root. For a global attribute \<open>end\<close> does neither. \<open>begin\<close> wrote the entry to
  the overlay (line 163 passes \<open>attr.is_global()\<close>); \<open>end\<close> reads it back through
  \<open>Context::get\<close> and calls \<open>Context::unset\<close> (line 204), which removes env-local entries
  only. After \<open>begin(0, host, A)\<close> the call \<open>end(0, host)\<close> finds node 0, which carries the
  attribute and hangs under the root, and returns with the entry of (0, host) still naming
  node 0; what it returns is the value of \<open>unset\<close> for a key without env-local entry.
\<close>

theorem end_leaves_global_entry:
  "map_option (\<lambda>s. (Context_get (m_context s) 0 0, map node_attribute (m_nodes s),
                     map node_parent (m_nodes s),
                     map_option (map_sum id (\<lambda>(r, s'). (r, Context_get (m_context s') 0 0)))
                       (end_impl s 0 host_attr)))
     (run CaliperImpl_new [CreateAttribute ''host'' False True, Begin 0 host_attr [65]]) =
   Some (Some (Reference 0), [0], [Some Root], Some (Inr (CALI_EINV, Some (Reference 0))))"
  by (simp add: eval_defs host_attr_def walk_up.simps)

section \<open>The singleton accessor: \<open>try_instance\<close>\<close>

lemma observable_flag:
  "observable g \<Longrightarrow>
     (s_siglock g = 0 \<or> s_siglock g = 1) \<and> (s_siglock g = 0 \<longrightarrow> s_caliper g \<noteq> None)"
proof (induction rule: observable.induct)
  case o_initial
  show ?case by (simp add: Global_initial_def)
next
  case (o_instance g tr g')
  then show ?case
    by (auto simp: instance_trace_def Let_def split: if_splits option.splits)
next
  case (o_member g c c')
  then show ?case by simp
qed

lemma instance_initial:
  "Caliper_instance Global_initial = Inr (Some CaliperImpl_new, Global_ready)"
  by (simp add: Caliper_instance_def instance_trace_def Global_initial_def Global_ready_def
        Let_def CaliperImpl_init_def)

lemma observable_ready: "observable Global_ready"
proof -
  have "instance_trace Global_initial = Inr
     [Global_initial, Global_initial\<lparr>s_mutex := True\<rparr>,
      Global_initial\<lparr>s_mutex := True, s_caliper := Some CaliperImpl_new\<rparr>,
      Global_initial\<lparr>s_mutex := True, s_caliper := Some CaliperImpl_new\<rparr>,
      Global_initial\<lparr>s_mutex := True, s_caliper := Some CaliperImpl_new, s_siglock := 0\<rparr>,
      Global_ready]"
    by (simp add: instance_trace_def Global_initial_def Global_ready_def Let_def CaliperImpl_init_def)
  from o_instance [OF o_initial this, of Global_ready] show ?thesis by simp
qed

text \<open>
  C8: in every observable state of the statics, \<open>try_instance\<close> returns the singleton when
  the flag is 0 (and then the singleton exists), returns null when the flag is not 0 (which
  covers every state a running \<open>instance\<close> passes through before it clears the flag), and
  leaves the statics as they are: it constructs nothing and does not touch the mutex. The
  flag is one-way: once it is 0, \<open>instance\<close> changes nothing any more.
\<close>

theorem try_instance_after_initialization:
  assumes "observable g"
  shows "(s_siglock g = 0 \<longrightarrow> (\<exists>c. s_caliper g = Some c \<and> Caliper_try_instance g = (Some c, g))) \<and>
         (s_siglock g \<noteq> 0 \<longrightarrow> Caliper_try_instance g = (None, g)) \<and>
         (s_siglock g = 0 \<longrightarrow> instance_trace g = Inr [g])"
  using observable_flag [OF assms]
  by (auto simp: Caliper_try_instance_def instance_trace_def)

theorem try_instance_after_initialization_witness:
  "observable Global_ready \<and> s_siglock Global_ready = 0 \<and>
   Caliper_try_instance Global_ready = (Some CaliperImpl_new, Global_ready) \<and>
   observable Global_initial \<and> s_siglock Global_initial \<noteq> 0 \<and>
   Caliper_try_instance Global_initial = (None, Global_initial)"
  using try_instance_after_initialization [OF observable_ready]
    try_instance_after_initialization [OF o_initial] observable_ready o_initial
  by (simp add: Global_ready_def Global_initial_def)

section \<open>The environment callback\<close>

lemma create_attribute_env_cb:
  "create_attribute s name v g = Inr (a, s') \<Longrightarrow> m_env_cb s' = m_env_cb s"
  by (auto simp: create_attribute_def and_then_def Let_def split: sum.splits prod.splits)

lemma create_node_env_cb:
  "create_node s a d = Inr (n, s') \<Longrightarrow> m_env_cb s' = m_env_cb s"
  by (auto simp: create_node_def and_then_def Let_def split: sum.splits prod.splits)

lemma Node_append_env_cb:
  "Node_append s p c = Inr s' \<Longrightarrow> m_env_cb s' = m_env_cb s"
  by (auto simp: Node_append_def set_node_def and_then_def Let_def
       split: sum.splits prod.splits node_ptr.splits)

lemma create_child_env_cb:
  "create_child s p a d = Inr (n, s') \<Longrightarrow> m_env_cb s' = m_env_cb s"
  by (auto simp: create_child_def and_then_def Let_def split: sum.splits prod.splits
       dest!: create_node_env_cb Node_append_env_cb)

lemma find_or_create_env_cb:
  "find_or_create s p a d = Inr (n, s') \<Longrightarrow> m_env_cb s' = m_env_cb s"
  by (auto simp: find_or_create_def and_then_def Let_def
       split: sum.splits prod.splits option.splits dest!: create_child_env_cb)

lemma begin_env_cb:
  "begin_impl s env a d = Inr (r, s') \<Longrightarrow> m_env_cb s' = m_env_cb s"
  by (auto simp: begin_impl_def and_then_def Let_def Context_set_def
       split: sum.splits prod.splits option.splits if_splits dest!: find_or_create_env_cb)

lemma set_env_cb:
  "set_impl s env a d = Inr (r, s') \<Longrightarrow> m_env_cb s' = m_env_cb s"
  by (auto simp: set_impl_def and_then_def Let_def Context_set_def
       split: sum.splits prod.splits option.splits if_splits dest!: find_or_create_env_cb)

lemma end_env_cb:
  "end_impl s env a = Some (Inr (r, s')) \<Longrightarrow> m_env_cb s' = m_env_cb s"
  by (auto simp: end_impl_def and_then_def Let_def Context_set_def Context_unset_def
       split: sum.splits prod.splits option.splits if_splits node_ptr.splits)

lemma get_env_cb:
  "get_impl s i = Inr (r, s') \<Longrightarrow> m_env_cb s' = m_env_cb s"
  by (auto simp: get_impl_def and_then_def Let_def
       split: sum.splits prod.splits option.splits if_splits)

lemma exec_env_cb:
  "\<not> is_callback_op x \<Longrightarrow> exec s x = Some (Inr s') \<Longrightarrow> m_env_cb s' = m_env_cb s"
  by (cases x) (auto simp: and_then_def split: sum.splits prod.splits option.splits
       dest: create_attribute_env_cb begin_env_cb set_env_cb end_env_cb get_env_cb)

lemma run_env_cb:
  "run s ops = Some s' \<Longrightarrow> \<forall>x \<in> set ops. \<not> is_callback_op x \<Longrightarrow> m_env_cb s' = m_env_cb s"
proof (induction ops arbitrary: s)
  case Nil
  then show ?case by simp
next
  case (Cons x xs)
  from run_Cons_Some [OF Cons.prems(1)] obtain s1
    where e: "exec s x = Some (Inr s1)" and r: "run s1 xs = Some s'"
    by blast
  from Cons.prems(2) have nx: "\<not> is_callback_op x" and nxs: "\<forall>x \<in> set xs. \<not> is_callback_op x"
    by simp_all
  from Cons.IH [OF r nxs] exec_env_cb [OF nx e] show ?case by simp
qed

lemma run_env_cb_from:
  "run s ops = Some s' \<Longrightarrow> \<forall>x \<in> set ops. \<not> is_callback_op x \<Longrightarrow>
   current_environment s' = current_environment s"
  using run_env_cb [of s ops s'] by (simp add: current_environment_def)

text \<open>
  C10: after any run of calls on a fresh object none of which is
  \<open>set_environment_callback\<close>, \<open>current_environment\<close> returns 0; once a callback has been
  installed, and for as long as no other one is, it returns what the callback returns.
\<close>

theorem current_environment_callback:
  "(run CaliperImpl_new ops = Some s \<and> (\<forall>x \<in> set ops. \<not> is_callback_op x) \<longrightarrow>
      current_environment s = 0) \<and>
   (run (set_environment_callback s0 (Some cb)) ops' = Some s' \<and>
    (\<forall>x \<in> set ops'. \<not> is_callback_op x) \<longrightarrow>
      current_environment s' = cb ())"
  using run_env_cb_from [of CaliperImpl_new ops s]
    run_env_cb_from [of "set_environment_callback s0 (Some cb)" ops' s']
  by (auto simp: current_environment_def set_environment_callback_def CaliperImpl_new_def)

theorem current_environment_callback_witness:
  "(\<exists>s. run CaliperImpl_new one_begin = Some s \<and> current_environment s = 0) \<and>
   (\<exists>s'. run (set_environment_callback CaliperImpl_new (Some (\<lambda>u. 3))) one_begin = Some s' \<and>
         current_environment s' = 3)"
proof -
  have n: "\<forall>x \<in> set one_begin. \<not> is_callback_op x"
    by (simp add: one_begin_def)
  have "run CaliperImpl_new one_begin \<noteq> None"
    by (simp add: eval_defs one_begin_def phase_attr_def)
  then obtain s where s: "run CaliperImpl_new one_begin = Some s"
    by blast
  have "run (set_environment_callback CaliperImpl_new (Some (\<lambda>u. 3))) one_begin \<noteq> None"
    by (simp add: eval_defs one_begin_def phase_attr_def)
  then obtain s' where s': "run (set_environment_callback CaliperImpl_new (Some (\<lambda>u. 3))) one_begin = Some s'"
    by blast
  from current_environment_callback [of one_begin s CaliperImpl_new "\<lambda>u. 3" one_begin s'] s s' n
  show ?thesis by simp
qed

section \<open>The node read lock\<close>

text \<open>
  \<open>begin\<close>, \<open>set\<close> and \<open>get\<close> give the lock back on every path on which they return, in
  any state that has the lock free. \<open>end\<close> does so on every path but one: the return of
  line 197, taken when the walk up the parent chain found no node.
\<close>

lemma set_node_nodelock [simp]: "m_nodelock (set_node s p n) = m_nodelock s"
  by (cases p) (simp_all add: set_node_def)







lemma end_lock_released_or_no_ancestor:
  assumes "m_nodelock s = lock_free" and "end_impl s env attr = Some (Inr (r, s'))"
  shows "m_nodelock s' = lock_free \<or>
         (r = CALI_EINV \<and> s' = s\<lparr>m_nodelock := \<lparr>lock_readers = Suc 0, lock_writer = False\<rparr>\<rparr> \<and>
          (\<exists>e. Context_get (m_context s) env (attr_id attr) = Some e \<and>
               walk_up s' (attr_id attr) (Some (Idx (slot_raw e))) = Some (Inr None)))"
  using assms
  by (auto simp: end_impl_def Let_def rlock_free unlock_rlocked and_then_def nodes_at_def
      Context_set_def Context_unset_def
      split: sum.splits option.splits if_splits node_ptr.splits)

text \<open>
  The return of line 197 is not taken by a call that passes an attribute of the registry:
  the entry of such an attribute names a node that carries it, so the walk ends at once.
  It is taken with an attribute object that the registry did not hand out. After the run
  \<open>leak_ops\<close>, a call of \<open>end\<close> with an object of id 1 that is not store-as-value (the
  registered attribute 1 is) finds node 0 (attribute 0) and no ancestor carrying attribute
  1; it returns \<open>CALI_EINV\<close> with one reader still counted on the lock.
\<close>

lemma end_leaves_read_lock_held:
  "map_option (\<lambda>s. (registered s (count_attr\<lparr>store_as_value := False\<rparr>),
                     map_option (map_sum id (\<lambda>(r, s). (r, m_nodelock s)))
                       (end_impl s 0 (count_attr\<lparr>store_as_value := False\<rparr>))))
     (run CaliperImpl_new leak_ops) =
   Some (False, Some (Inr (CALI_EINV, \<lparr>lock_readers = 1, lock_writer = False\<rparr>)))"
  by (simp add: eval_defs phase_attr_def count_attr_def leak_ops_def walk_up.simps)



end
